theory Spec2Isabelle
  imports Main
begin

section \<open>Data model\<close>

text \<open>
  \<^verbatim>\<open>abstract_plugin::state\<close>: the four lifecycle states of a plugin.
\<close>

datatype state = registered | initialized | started | stopped

text \<open>
  Objects live on the C++ heap; a pointer is an address. \<^verbatim>\<open>new\<close> hands out the next
  unused address.
\<close>

type_synonym addr = nat

text \<open>
  The fields of \<^verbatim>\<open>plugin<Impl>\<close>: \<^verbatim>\<open>_state\<close> (initially \<^verbatim>\<open>registered\<close>) and \<^verbatim>\<open>_name\<close>,
  the demangled name of \<^verbatim>\<open>Impl\<close>.
\<close>

record plugin =
  plugin_state :: state
  plugin_name :: string

text \<open>
  \<^verbatim>\<open>assert\<close> aborts the program when its condition is false: the model is of a build
  with assertions compiled in (\<^verbatim>\<open>NDEBUG\<close> not defined). Calling a member function through a
  pointer that points to no plugin has no defined behaviour in C++; the model gives it an
  error of its own.
\<close>

datatype error = Assertion_failed | Invalid_pointer

text \<open>
  What the framework does that is visible from outside, in the order it happens: the
  write of a plugin's \<^verbatim>\<open>_state\<close>, the calls of the user hooks \<^verbatim>\<open>plugin_initialize\<close>,
  \<^verbatim>\<open>plugin_startup\<close>, \<^verbatim>\<open>plugin_shutdown\<close>, and the notifications
  \<^verbatim>\<open>app().plugin_initialized\<close> and \<^verbatim>\<open>app().plugin_started\<close>.
\<close>

datatype event =
    State_set addr state
  | Hook_initialize addr
  | Hook_startup addr
  | Hook_shutdown addr
  | Notify_initialized addr
  | Notify_started addr

text \<open>
  A method or channel declaration: the declaration type itself, which is the registry key
  (\<^verbatim>\<open>std::type_index(typeid(MethodDecl))\<close>), and its payload type
  (\<^verbatim>\<open>MethodDecl::method_type\<close>, \<^verbatim>\<open>ChannelDecl::channel_type\<close>).
\<close>

record decl =
  decl_type :: string
  payload_type :: string

text \<open>
  The members of \<^verbatim>\<open>application\<close> that the lifecycle and the registries use, then the
  heap: the plugin objects, the method and channel objects (each remembers the payload
  type it was constructed for), the next unused address, and the log of events.
\<close>

record application =
  plugins :: "string \<rightharpoonup> addr"
  initialized_plugins :: "addr list"
  running_plugins :: "addr list"
  methods :: "string \<rightharpoonup> addr"
  channels :: "string \<rightharpoonup> addr"
  plugin_objs :: "addr \<rightharpoonup> plugin"
  method_objs :: "addr \<rightharpoonup> string"
  channel_objs :: "addr \<rightharpoonup> string"
  next_addr :: addr
  trace :: "event list"

definition empty_application :: application where
  "empty_application =
     \<lparr>plugins = Map.empty, initialized_plugins = [], running_plugins = [],
      methods = Map.empty, channels = Map.empty,
      plugin_objs = Map.empty, method_objs = Map.empty, channel_objs = Map.empty,
      next_addr = 0, trace = []\<rparr>"

text \<open>
  The program fixes, for each plugin type, the sequence it passes to
  \<^verbatim>\<open>APPBASE_PLUGIN_REQUIRES\<close>. A type that is not listed requires nothing.
\<close>

type_synonym program = "(string \<times> string list) list"

definition requires_seq :: "program \<Rightarrow> string \<Rightarrow> string list" where
  "requires_seq prog Impl = (case map_of prog Impl of None \<Rightarrow> [] | Some PLUGINS \<Rightarrow> PLUGINS)"

text \<open>
  A call returns a value, aborts with an error, or does not return at all. The
  recursive functions carry fuel, one unit for each nested call; \<open>None\<close> is the result of
  a call whose nesting is deeper than the fuel.
\<close>

type_synonym 'a result = "(error + 'a) option"

definition and_then :: "'a result \<Rightarrow> ('a \<Rightarrow> 'b result) \<Rightarrow> 'b result" where
  "and_then r k =
     (case r of None \<Rightarrow> None | Some (Inl e) \<Rightarrow> Some (Inl e) | Some (Inr x) \<Rightarrow> k x)"

section \<open>Dependency declaration and traversal\<close>

text \<open>
  \<^verbatim>\<open>BOOST_PP_SEQ_FOR_EACH\<close>: the statements for the elements of the sequence, one after
  the other.
\<close>

fun seq_for_each ::
  "('a \<Rightarrow> application \<Rightarrow> application result) \<Rightarrow> 'a list \<Rightarrow> application \<Rightarrow> application result"
where
  "seq_for_each f [] s = Some (Inr s)"
| "seq_for_each f (elem # rest) s = and_then (f elem s) (seq_for_each f rest)"

text \<open>
  \<^verbatim>\<open>APPBASE_PLUGIN_REQUIRES_VISIT\<close>: \<^verbatim>\<open>visitor( appbase::app().register_plugin<elem>() );\<close>.
  The call of \<^verbatim>\<open>register_plugin\<close> is the parameter \<open>reg\<close>, since \<^verbatim>\<open>register_plugin\<close>
  itself runs \<^verbatim>\<open>plugin_requires\<close>.
\<close>

definition plugin_requires_visit ::
  "(string \<Rightarrow> application \<Rightarrow> (addr \<times> application) result) \<Rightarrow>
   (addr \<Rightarrow> application \<Rightarrow> application result) \<Rightarrow> string \<Rightarrow> application \<Rightarrow> application result"
where
  "plugin_requires_visit reg visitor elem s =
     and_then (reg elem s) (\<lambda>(plug, s'). visitor plug s')"

text \<open>\<^verbatim>\<open>plugin_requires( Lambda&& l )\<close> of the plugin type \<open>Impl\<close>.\<close>

definition plugin_requires ::
  "program \<Rightarrow> string \<Rightarrow> (string \<Rightarrow> application \<Rightarrow> (addr \<times> application) result) \<Rightarrow>
   (addr \<Rightarrow> application \<Rightarrow> application result) \<Rightarrow> application \<Rightarrow> application result"
where
  "plugin_requires prog Impl reg l s =
     seq_for_each (plugin_requires_visit reg l) (requires_seq prog Impl) s"

section \<open>Plugin registry\<close>

text \<open>
  Modelled from the spec: \<^verbatim>\<open>application::find_plugin(const string& name)\<close> is declared in
  the header and defined elsewhere. The spec has it return the existing instance or a
  not-found signal, and never construct. \<^verbatim>\<open>find_plugin<Plugin>()\<close> of the header looks
  the demangled name of \<^verbatim>\<open>Plugin\<close> up with it.
\<close>

definition find_plugin :: "application \<Rightarrow> string \<Rightarrow> addr option" where
  "find_plugin s name = plugins s name"

text \<open>\<^verbatim>\<open>new Plugin()\<close>: a plugin object in state \<^verbatim>\<open>registered\<close> at the next unused address.\<close>

definition new_plugin :: "string \<Rightarrow> application \<Rightarrow> application" where
  "new_plugin Plugin s =
     s\<lparr>plugin_objs := (plugin_objs s)(next_addr s \<mapsto> \<lparr>plugin_state = registered, plugin_name = Plugin\<rparr>),
       next_addr := Suc (next_addr s)\<rparr>"

text \<open>
  \<^verbatim>\<open>plugin::register_dependencies\<close>: \<^verbatim>\<open>plugin_requires\<close> with a visitor that does nothing.
\<close>

definition register_dependencies ::
  "(string \<Rightarrow> application \<Rightarrow> (addr \<times> application) result) \<Rightarrow> program \<Rightarrow> addr \<Rightarrow>
   application \<Rightarrow> application result"
where
  "register_dependencies reg prog this s =
     (case plugin_objs s this of
        None \<Rightarrow> Some (Inl Invalid_pointer)
      | Some self \<Rightarrow> plugin_requires prog (plugin_name self) reg (\<lambda>plug s'. Some (Inr s')) s)"

text \<open>\<^verbatim>\<open>application::register_plugin<Plugin>()\<close>.\<close>

primrec register_plugin ::
  "nat \<Rightarrow> program \<Rightarrow> string \<Rightarrow> application \<Rightarrow> (addr \<times> application) result"
where
  "register_plugin 0 prog Plugin s = None"
| "register_plugin (Suc fuel) prog Plugin s =
     (case find_plugin s Plugin of
        Some existing \<Rightarrow> Some (Inr (existing, s))
      | None \<Rightarrow>
          (let plug = next_addr s;
               s1 = new_plugin Plugin s;
               s2 = s1\<lparr>plugins := (plugins s1)(Plugin \<mapsto> plug)\<rparr>
           in and_then (register_dependencies (register_plugin fuel prog) prog plug s2)
                (\<lambda>s3. Some (Inr (plug, s3)))))"

section \<open>Plugin lifecycle\<close>

definition set_state :: "addr \<Rightarrow> plugin \<Rightarrow> state \<Rightarrow> application \<Rightarrow> application" where
  "set_state this self st s =
     s\<lparr>plugin_objs := (plugin_objs s)(this \<mapsto> self\<lparr>plugin_state := st\<rparr>),
       trace := trace s @ [State_set this st]\<rparr>"

definition log_event :: "event \<Rightarrow> application \<Rightarrow> application" where
  "log_event e s = s\<lparr>trace := trace s @ [e]\<rparr>"

text \<open>\<^verbatim>\<open>application::plugin_initialized\<close> and \<^verbatim>\<open>application::plugin_started\<close>.\<close>

definition plugin_initialized :: "addr \<Rightarrow> application \<Rightarrow> application" where
  "plugin_initialized plug s =
     (log_event (Notify_initialized plug) s)\<lparr>initialized_plugins := initialized_plugins s @ [plug]\<rparr>"

definition plugin_started :: "addr \<Rightarrow> application \<Rightarrow> application" where
  "plugin_started plug s =
     (log_event (Notify_started plug) s)\<lparr>running_plugins := running_plugins s @ [plug]\<rparr>"

text \<open>\<^verbatim>\<open>assert(_state == st)\<close> at the end of a member function of the plugin \<open>this\<close>.\<close>

definition assert_state :: "addr \<Rightarrow> state \<Rightarrow> application \<Rightarrow> application result" where
  "assert_state this st s =
     (case plugin_objs s this of
        None \<Rightarrow> Some (Inl Invalid_pointer)
      | Some self \<Rightarrow> if plugin_state self = st then Some (Inr s) else Some (Inl Assertion_failed))"

text \<open>\<^verbatim>\<open>plugin::initialize\<close>. The options are handed through to the hook and are left out.\<close>

primrec initialize :: "nat \<Rightarrow> program \<Rightarrow> addr \<Rightarrow> application \<Rightarrow> application result" where
  "initialize 0 prog this s = None"
| "initialize (Suc fuel) prog this s =
     (case plugin_objs s this of
        None \<Rightarrow> Some (Inl Invalid_pointer)
      | Some self \<Rightarrow>
          and_then
            (if plugin_state self = registered then
               and_then
                 (plugin_requires prog (plugin_name self) (register_plugin fuel prog)
                    (initialize fuel prog) (set_state this self initialized s))
                 (\<lambda>s2. Some (Inr (plugin_initialized this (log_event (Hook_initialize this) s2))))
             else Some (Inr s))
            (assert_state this initialized))"

text \<open>\<^verbatim>\<open>plugin::startup\<close>.\<close>

primrec startup :: "nat \<Rightarrow> program \<Rightarrow> addr \<Rightarrow> application \<Rightarrow> application result" where
  "startup 0 prog this s = None"
| "startup (Suc fuel) prog this s =
     (case plugin_objs s this of
        None \<Rightarrow> Some (Inl Invalid_pointer)
      | Some self \<Rightarrow>
          and_then
            (if plugin_state self = initialized then
               and_then
                 (plugin_requires prog (plugin_name self) (register_plugin fuel prog)
                    (startup fuel prog) (set_state this self started s))
                 (\<lambda>s2. Some (Inr (plugin_started this (log_event (Hook_startup this) s2))))
             else Some (Inr s))
            (assert_state this started))"

text \<open>\<^verbatim>\<open>plugin::shutdown\<close>: no traversal and no assertion.\<close>

definition shutdown :: "addr \<Rightarrow> application \<Rightarrow> application result" where
  "shutdown this s =
     (case plugin_objs s this of
        None \<Rightarrow> Some (Inl Invalid_pointer)
      | Some self \<Rightarrow>
          if plugin_state self = started
          then Some (Inr (log_event (Hook_shutdown this) (set_state this self stopped s)))
          else Some (Inr s))"

section \<open>Orchestrator\<close>

text \<open>
  Modelled from the spec: \<^verbatim>\<open>application::initialize_impl\<close>, \<^verbatim>\<open>application::startup\<close> and
  \<^verbatim>\<open>application::shutdown\<close> are declared in the header and defined elsewhere. The spec:
  \<open>initialize_all(explicit_set)\<close> invokes \<open>initialize\<close> for each plugin of the set;
  \<open>startup_all()\<close> invokes \<open>startup\<close> on every plugin that was initialized, in the order
  recorded by \<open>initialized_order\<close>; \<open>shutdown_all()\<close> invokes \<open>shutdown\<close> on every plugin
  in \<open>started_order\<close>, traversed back to front.
\<close>

definition initialize_all ::
  "nat \<Rightarrow> program \<Rightarrow> addr list \<Rightarrow> application \<Rightarrow> application result" where
  "initialize_all fuel prog explicit_set s = seq_for_each (initialize fuel prog) explicit_set s"

definition startup_all :: "nat \<Rightarrow> program \<Rightarrow> application \<Rightarrow> application result" where
  "startup_all fuel prog s = seq_for_each (startup fuel prog) (initialized_plugins s) s"

definition shutdown_all :: "application \<Rightarrow> application result" where
  "shutdown_all s = seq_for_each shutdown (rev (running_plugins s)) s"

section \<open>Method and channel registries\<close>

text \<open>
  \<^verbatim>\<open>application::get_method<MethodDecl>()\<close>: the object found under the key, or a new one
  put under the key and returned.
\<close>

definition get_method :: "decl \<Rightarrow> application \<Rightarrow> addr \<times> application" where
  "get_method MethodDecl s =
     (let key = decl_type MethodDecl in
      case methods s key of
        Some itr \<Rightarrow> (itr, s)
      | None \<Rightarrow>
          (let obj = next_addr s in
           (obj, s\<lparr>methods := (methods s)(key \<mapsto> obj),
                   method_objs := (method_objs s)(obj \<mapsto> payload_type MethodDecl),
                   next_addr := Suc obj\<rparr>)))"

text \<open>\<^verbatim>\<open>application::get_channel<ChannelDecl>()\<close>.\<close>

definition get_channel :: "decl \<Rightarrow> application \<Rightarrow> addr \<times> application" where
  "get_channel ChannelDecl s =
     (let key = decl_type ChannelDecl in
      case channels s key of
        Some itr \<Rightarrow> (itr, s)
      | None \<Rightarrow>
          (let obj = next_addr s in
           (obj, s\<lparr>channels := (channels s)(key \<mapsto> obj),
                   channel_objs := (channel_objs s)(obj \<mapsto> payload_type ChannelDecl),
                   next_addr := Suc obj\<rparr>)))"

section \<open>Notions used by the properties\<close>

text \<open>
  The position of a state in \<^verbatim>\<open>enum state\<close>; the lifecycle only moves a plugin forward
  in it.
\<close>

fun state_ord :: "state \<Rightarrow> nat" where
  "state_ord registered = 0"
| "state_ord initialized = 1"
| "state_ord started = 2"
| "state_ord stopped = 3"

text \<open>
  The registry owns its plugins: every entry of \<^verbatim>\<open>plugins\<close> points to a plugin object that
  carries the entry's name, every plugin object is the one its name is registered under,
  and every plugin object lies below the next unused address.
\<close>

definition registry_ok :: "application \<Rightarrow> bool" where
  "registry_ok s \<longleftrightarrow>
     (\<forall>n a. plugins s n = Some a \<longrightarrow> (\<exists>self. plugin_objs s a = Some self \<and> plugin_name self = n)) \<and>
     (\<forall>a self. plugin_objs s a = Some self \<longrightarrow> a < next_addr s \<and> plugins s (plugin_name self) = Some a)"

text \<open>
  What a registration may change: it adds plugins in state \<^verbatim>\<open>registered\<close>, and nothing
  else.
\<close>

definition reg_rel :: "application \<Rightarrow> application \<Rightarrow> bool" where
  "reg_rel s s' \<longleftrightarrow>
     initialized_plugins s' = initialized_plugins s \<and>
     running_plugins s' = running_plugins s \<and>
     trace s' = trace s \<and>
     (\<forall>n a. plugins s n = Some a \<longrightarrow> plugins s' n = Some a) \<and>
     (\<forall>a self. plugin_objs s a = Some self \<longrightarrow> plugin_objs s' a = Some self) \<and>
     (\<forall>a self. plugin_objs s' a = Some self \<longrightarrow> plugin_objs s a = None \<longrightarrow>
        plugin_state self = registered)"

text \<open>
  What any lifecycle call may change: registry entries and plugin objects stay, names
  stay, states move forward, and the two order lists and the log grow at the end.
\<close>

definition evolves :: "application \<Rightarrow> application \<Rightarrow> bool" where
  "evolves s s' \<longleftrightarrow>
     (\<forall>n a. plugins s n = Some a \<longrightarrow> plugins s' n = Some a) \<and>
     (\<forall>a self. plugin_objs s a = Some self \<longrightarrow>
        (\<exists>self'. plugin_objs s' a = Some self' \<and> plugin_name self' = plugin_name self \<and>
                 state_ord (plugin_state self) \<le> state_ord (plugin_state self'))) \<and>
     (\<exists>ys. initialized_plugins s' = initialized_plugins s @ ys) \<and>
     (\<exists>ys. running_plugins s' = running_plugins s @ ys) \<and>
     (\<exists>ys. trace s' = trace s @ ys)"

text \<open>
  The method and channel registries own their objects: every registered object and every
  constructed object lies below the next unused address, and no object is stored under
  two keys.
\<close>

definition registries_ok :: "application \<Rightarrow> bool" where
  "registries_ok s \<longleftrightarrow>
     (\<forall>k a. methods s k = Some a \<longrightarrow> a < next_addr s) \<and>
     (\<forall>k a. channels s k = Some a \<longrightarrow> a < next_addr s) \<and>
     (\<forall>a p. method_objs s a = Some p \<longrightarrow> a < next_addr s) \<and>
     (\<forall>a p. channel_objs s a = Some p \<longrightarrow> a < next_addr s) \<and>
     (\<forall>k k' a. methods s k = Some a \<longrightarrow> methods s k' = Some a \<longrightarrow> k = k') \<and>
     (\<forall>k k' a. channels s k = Some a \<longrightarrow> channels s k' = Some a \<longrightarrow> k = k')"

text \<open>
  Any sequence of calls of \<^verbatim>\<open>get_method\<close> and \<^verbatim>\<open>get_channel\<close>, run for the application they
  leave.
\<close>

datatype access = Get_method decl | Get_channel decl

fun run_accesses :: "access list \<Rightarrow> application \<Rightarrow> application" where
  "run_accesses [] s = s"
| "run_accesses (Get_method d # cs) s = run_accesses cs (snd (get_method d s))"
| "run_accesses (Get_channel d # cs) s = run_accesses cs (snd (get_channel d s))"

text \<open>\<open>x\<close> occurs in the list strictly before the first occurrence of \<open>y\<close>.\<close>

definition precedes :: "'a \<Rightarrow> 'a \<Rightarrow> 'a list \<Rightarrow> bool" where
  "precedes x y xs \<longleftrightarrow> y \<in> set xs \<and> x \<in> set (takeWhile (\<lambda>z. z \<noteq> y) xs)"

text \<open>The plugins whose shutdown hook ran, in the order the hooks ran.\<close>

fun shutdown_hooks :: "event list \<Rightarrow> addr list" where
  "shutdown_hooks [] = []"
| "shutdown_hooks (Hook_shutdown a # es) = a # shutdown_hooks es"
| "shutdown_hooks (e # es) = shutdown_hooks es"





subsection \<open>Example runs\<close>

definition returned :: "'a result \<Rightarrow> bool" where
  "returned r = (case r of Some (Inr x) \<Rightarrow> True | _ \<Rightarrow> False)"

definition result_state :: "application result \<Rightarrow> application" where
  "result_state r = (case r of Some (Inr s) \<Rightarrow> s | _ \<Rightarrow> empty_application)"

text \<open>
  Register one plugin in the empty application, initialize it and start everything that
  was initialized.
\<close>

definition lifecycle_run :: "nat \<Rightarrow> program \<Rightarrow> string \<Rightarrow> application result" where
  "lifecycle_run fuel prog Plugin =
     and_then (register_plugin fuel prog Plugin empty_application)
       (\<lambda>(plug, s1). and_then (initialize_all fuel prog [plug] s1) (startup_all fuel prog))"

text \<open>The scenario of the spec: \<open>Net\<close> requires \<open>Config\<close>.\<close>

definition demo_prog :: program where
  "demo_prog = [(''Net'', [''Config'']), (''Config'', [])]"

text \<open>Two plugins that require each other.\<close>

definition cyclic_prog :: program where
  "cyclic_prog = [(''A'', [''B'']), (''B'', [''A''])]"

text \<open>Two declarations with the same payload type.\<close>

definition decl_one :: decl where
  "decl_one = \<lparr>decl_type = ''get_block'', payload_type = ''int(int)''\<rparr>"

definition decl_two :: decl where
  "decl_two = \<lparr>decl_type = ''get_head'', payload_type = ''int(int)''\<rparr>"

text \<open>The states of the scenario after registration, initialization and startup.\<close>

definition demo_registered :: application where
  "demo_registered =
     result_state (and_then (register_plugin 2 demo_prog ''Net'' empty_application)
                     (\<lambda>(plug, s). Some (Inr s)))"

definition demo_initialized :: application where
  "demo_initialized = result_state (initialize (Suc 1) demo_prog 0 demo_registered)"

definition demo_started :: application where
  "demo_started = result_state (startup (Suc 1) demo_prog 0 demo_initialized)"

text \<open>The same for the two plugins that require each other, \<open>A\<close> first.\<close>

definition cyclic_registered :: application where
  "cyclic_registered =
     result_state (and_then (register_plugin 3 cyclic_prog ''A'' empty_application)
                     (\<lambda>(plug, s). Some (Inr s)))"

definition cyclic_initialized :: application where
  "cyclic_initialized = result_state (initialize 3 cyclic_prog 0 cyclic_registered)"

subsection \<open>The common shape of initialize and startup\<close>

text \<open>
  \<^verbatim>\<open>plugin::initialize\<close> and \<^verbatim>\<open>plugin::startup\<close> are the same code up to the state they fire
  from, the state they lead to, the hook and the notification. \<open>traverse\<close> is that code
  with the four as parameters; \<open>initialize\<close> and \<open>startup\<close> are shown equal to its two
  instances, and the facts about the traversal are proved once.
\<close>

datatype phase = Initializing | Starting

fun fires_from :: "phase \<Rightarrow> state" where
  "fires_from Initializing = registered"
| "fires_from Starting = initialized"

fun leads_to :: "phase \<Rightarrow> state" where
  "leads_to Initializing = initialized"
| "leads_to Starting = started"

fun hook_of :: "phase \<Rightarrow> addr \<Rightarrow> event" where
  "hook_of Initializing = Hook_initialize"
| "hook_of Starting = Hook_startup"

fun notify :: "phase \<Rightarrow> addr \<Rightarrow> application \<Rightarrow> application" where
  "notify Initializing = plugin_initialized"
| "notify Starting = plugin_started"

fun order_of :: "phase \<Rightarrow> application \<Rightarrow> addr list" where
  "order_of Initializing = initialized_plugins"
| "order_of Starting = running_plugins"

primrec traverse :: "phase \<Rightarrow> nat \<Rightarrow> program \<Rightarrow> addr \<Rightarrow> application \<Rightarrow> application result" where
  "traverse ph 0 prog this s = None"
| "traverse ph (Suc fuel) prog this s =
     (case plugin_objs s this of
        None \<Rightarrow> Some (Inl Invalid_pointer)
      | Some self \<Rightarrow>
          and_then
            (if plugin_state self = fires_from ph then
               and_then
                 (plugin_requires prog (plugin_name self) (register_plugin fuel prog)
                    (traverse ph fuel prog) (set_state this self (leads_to ph) s))
                 (\<lambda>s2. Some (Inr (notify ph this (log_event (hook_of ph this) s2))))
             else Some (Inr s))
            (assert_state this (leads_to ph)))"

text \<open>
  The declared plugin types that are not yet registered with a plugin in state \<open>k\<close> or
  later. Each call that fires takes one type out of this set, which bounds the nesting.
\<close>

definition behind :: "nat \<Rightarrow> program \<Rightarrow> application \<Rightarrow> string set" where
  "behind k prog s =
     {n \<in> fst ` set prog.
        \<not> (\<exists>a self. plugins s n = Some a \<and> plugin_objs s a = Some self \<and>
                     k \<le> state_ord (plugin_state self))}"

text \<open>No plugin is in a state later than \<open>k\<close>.\<close>

definition none_past :: "nat \<Rightarrow> application \<Rightarrow> bool" where
  "none_past k s \<longleftrightarrow>
     (\<forall>a self. plugin_objs s a = Some self \<longrightarrow> state_ord (plugin_state self) \<le> k)"

text \<open>
  Every plugin that has left \<^verbatim>\<open>registered\<close> has all its dependencies registered and out
  of \<^verbatim>\<open>registered\<close> too.
\<close>

definition deps_ready :: "program \<Rightarrow> application \<Rightarrow> bool" where
  "deps_ready prog s \<longleftrightarrow>
     (\<forall>a self. plugin_objs s a = Some self \<longrightarrow> plugin_state self \<noteq> registered \<longrightarrow>
        (\<forall>d\<in>set (requires_seq prog (plugin_name self)).
           \<exists>b dep. plugins s d = Some b \<and> plugin_objs s b = Some dep \<and>
                   plugin_state dep \<noteq> registered))"

text \<open>The states from which a traversal meets no failing assertion.\<close>

fun safe :: "phase \<Rightarrow> program \<Rightarrow> application \<Rightarrow> bool" where
  "safe Initializing prog s \<longleftrightarrow> none_past 1 s"
| "safe Starting prog s \<longleftrightarrow> none_past 2 s \<and> deps_ready prog s"

fun callable :: "phase \<Rightarrow> plugin \<Rightarrow> bool" where
  "callable Initializing self \<longleftrightarrow> True"
| "callable Starting self \<longleftrightarrow> plugin_state self \<noteq> registered"

text \<open>
  In the list \<open>L\<close> every plugin comes after the plugins it requires.
\<close>

definition topo :: "program \<Rightarrow> application \<Rightarrow> addr list \<Rightarrow> bool" where
  "topo prog s L \<longleftrightarrow>
     (\<forall>a\<in>set L. \<forall>self. plugin_objs s a = Some self \<longrightarrow>
        (\<forall>d\<in>set (requires_seq prog (plugin_name self)).
           \<exists>b. plugins s d = Some b \<and> precedes b a L))"

text \<open>
  The invariant of a traversal while the plugin types in \<open>X\<close> are in progress (their
  state is set, their dependencies are being visited): the order list holds exactly the
  plugins that reached the phase's state and are not in progress, each after its
  dependencies.
\<close>

definition order_inv :: "phase \<Rightarrow> program \<Rightarrow> string set \<Rightarrow> application \<Rightarrow> bool" where
  "order_inv ph prog X s \<longleftrightarrow>
     registry_ok s \<and>
     (\<forall>a\<in>set (order_of ph s). \<exists>self. plugin_objs s a = Some self \<and>
        state_ord (leads_to ph) \<le> state_ord (plugin_state self) \<and> plugin_name self \<notin> X) \<and>
     (\<forall>a self. plugin_objs s a = Some self \<longrightarrow>
        state_ord (leads_to ph) \<le> state_ord (plugin_state self) \<longrightarrow>
        plugin_name self \<notin> X \<longrightarrow> a \<in> set (order_of ph s)) \<and>
     topo prog s (order_of ph s)"

text \<open>The state of the cyclic example after registration, initialization and startup.\<close>

definition cyclic_started :: application where
  "cyclic_started = result_state (lifecycle_run 3 cyclic_prog ''A'')"

text \<open>A ranking of the plugin types of the scenario: \<open>Net\<close> above \<open>Config\<close>.\<close>

definition demo_rank :: "string \<Rightarrow> nat" where
  "demo_rank n = (if n = ''Net'' then 1 else 0)"

section \<open>Basic facts\<close>

lemmas model_defs =
  find_plugin_def new_plugin_def register_dependencies_def plugin_requires_def
  plugin_requires_visit_def requires_seq_def set_state_def log_event_def
  plugin_initialized_def plugin_started_def assert_state_def shutdown_def
  initialize_all_def startup_all_def shutdown_all_def empty_application_def
  lifecycle_run_def result_state_def returned_def
  demo_prog_def cyclic_prog_def demo_registered_def demo_initialized_def demo_started_def
  decl_one_def decl_two_def cyclic_started_def cyclic_registered_def cyclic_initialized_def

subsection \<open>Results and sequences of calls\<close>

lemma and_then_Inr:
  "and_then r k = Some (Inr y) \<longleftrightarrow> (\<exists>x. r = Some (Inr x) \<and> k x = Some (Inr y))"
  by (auto simp: and_then_def split: option.splits sum.splits)

lemma and_then_simps [simp]:
  "and_then None k = None"
  "and_then (Some (Inl e)) k = Some (Inl e)"
  "and_then (Some (Inr x)) k = k x"
  by (simp_all add: and_then_def)

lemma assert_state_Inr:
  "assert_state this st s = Some (Inr s') \<longleftrightarrow>
     s' = s \<and> (\<exists>self. plugin_objs s this = Some self \<and> plugin_state self = st)"
  by (auto simp: assert_state_def split: option.splits)

lemma seq_for_each_Inr:
  assumes "seq_for_each f xs s = Some (Inr s')" and "I s"
    and "\<And>x t t'. x \<in> set xs \<Longrightarrow> I t \<Longrightarrow> f x t = Some (Inr t') \<Longrightarrow> I t'"
  shows "I s'"
  using assms
proof (induction xs arbitrary: s)
  case Nil
  then show ?case by simp
next
  case (Cons x xs)
  from Cons.prems(1) obtain t where t: "f x s = Some (Inr t)" "seq_for_each f xs t = Some (Inr s')"
    by (auto simp: and_then_Inr simp del: and_then_simps)
  have "I t" using Cons.prems(3)[of x s t] Cons.prems(2) t(1) by simp
  show ?case
    by (rule Cons.IH[OF t(2) \<open>I t\<close>]) (use Cons.prems(3) in auto)
qed

lemma seq_for_each_Some:
  assumes "seq_for_each f xs s = Some r" and "I s"
    and "\<And>x t r. x \<in> set xs \<Longrightarrow> I t \<Longrightarrow> f x t = Some r \<Longrightarrow> \<exists>t'. r = Inr t' \<and> I t'"
  shows "\<exists>s'. r = Inr s' \<and> I s'"
  using assms
proof (induction xs arbitrary: s)
  case Nil
  then show ?case by auto
next
  case (Cons x xs)
  from Cons.prems(1) obtain r1 where r1: "f x s = Some r1"
    by (cases "f x s") auto
  then obtain t where t: "r1 = Inr t" "I t" using Cons.prems(3)[of x s r1] Cons.prems(2) by auto
  then have "seq_for_each f xs t = Some r" using Cons.prems(1) r1 by simp
  then show ?case
    by (rule Cons.IH[OF _ t(2)]) (use Cons.prems(3) in auto)
qed

subsection \<open>How the application evolves\<close>

lemma reg_rel_refl: "reg_rel s s"
  by (simp add: reg_rel_def)

lemma reg_rel_trans: "reg_rel a b \<Longrightarrow> reg_rel b c \<Longrightarrow> reg_rel a c"
  unfolding reg_rel_def
  apply (intro conjI)
       apply simp apply simp apply simp apply blast apply blast
  apply (intro allI impI)
  subgoal for x self by (cases "plugin_objs b x") auto
  done

lemma evolves_refl: "evolves s s"
  by (simp add: evolves_def)

lemma evolves_objs:
  "evolves s s' \<Longrightarrow> plugin_objs s a = Some self \<Longrightarrow>
   \<exists>self'. plugin_objs s' a = Some self' \<and> plugin_name self' = plugin_name self \<and>
           state_ord (plugin_state self) \<le> state_ord (plugin_state self')"
  by (simp add: evolves_def)

lemma evolves_plugins: "evolves s s' \<Longrightarrow> plugins s n = Some a \<Longrightarrow> plugins s' n = Some a"
  by (simp add: evolves_def)

lemma evolves_trans:
  assumes ab: "evolves a b" and bc: "evolves b c"
  shows "evolves a c"
proof -
  have objs: "\<exists>self'. plugin_objs c x = Some self' \<and> plugin_name self' = plugin_name self \<and>
           state_ord (plugin_state self) \<le> state_ord (plugin_state self')"
    if "plugin_objs a x = Some self" for x self
  proof -
    from evolves_objs[OF ab that] obtain m where
      m: "plugin_objs b x = Some m" "plugin_name m = plugin_name self"
         "state_ord (plugin_state self) \<le> state_ord (plugin_state m)" by blast
    from evolves_objs[OF bc m(1)] obtain k where
      k: "plugin_objs c x = Some k" "plugin_name k = plugin_name m"
         "state_ord (plugin_state m) \<le> state_ord (plugin_state k)" by blast
    show ?thesis using m k by simp
  qed
  have lists: "(\<exists>ys. initialized_plugins c = initialized_plugins a @ ys) \<and>
     (\<exists>ys. running_plugins c = running_plugins a @ ys) \<and> (\<exists>ys. trace c = trace a @ ys)"
    using ab bc unfolding evolves_def by auto
  show ?thesis
    unfolding evolves_def using objs lists evolves_plugins[OF ab] evolves_plugins[OF bc] by blast
qed

lemma reg_rel_evolves: "reg_rel s s' \<Longrightarrow> evolves s s'"
  by (auto simp: reg_rel_def evolves_def)

subsection \<open>Registration keeps the registry well formed\<close>

lemma registry_ok_new:
  assumes "registry_ok s" "plugins s P = None"
  shows "registry_ok ((new_plugin P s)\<lparr>plugins := (plugins (new_plugin P s))(P \<mapsto> next_addr s)\<rparr>)"
    and "reg_rel s ((new_plugin P s)\<lparr>plugins := (plugins (new_plugin P s))(P \<mapsto> next_addr s)\<rparr>)"
  using assms unfolding registry_ok_def reg_rel_def new_plugin_def
   apply (auto simp: less_Suc_eq)
  done

lemma visit_register_only:
  assumes IH: "\<And>s n r. registry_ok s \<Longrightarrow> reg n s = Some r \<Longrightarrow>
            \<exists>b s'. r = Inr (b, s') \<and> registry_ok s' \<and> reg_rel s s' \<and> plugins s' n = Some b"
    and "seq_for_each (plugin_requires_visit reg (\<lambda>plug s'. Some (Inr s'))) ds s = Some r"
    and "registry_ok s"
  shows "\<exists>s'. r = Inr s' \<and> registry_ok s' \<and> reg_rel s s'"
proof -
  have "\<exists>s'. r = Inr s' \<and> (registry_ok s' \<and> reg_rel s s')"
  proof (rule seq_for_each_Some[OF assms(2)])
    show "registry_ok s \<and> reg_rel s s" using assms(3) by (simp add: reg_rel_refl)
  next
    fix x t q
    assume t: "registry_ok t \<and> reg_rel s t"
      and q: "plugin_requires_visit reg (\<lambda>plug s'. Some (Inr s')) x t = Some q"
    from q obtain q0 where q0: "reg x t = Some q0"
      by (cases "reg x t") (auto simp: plugin_requires_visit_def)
    from IH[OF _ q0] t obtain b t' where
      b: "q0 = Inr (b, t')" "registry_ok t'" "reg_rel t t'" by blast
    from q q0 b(1) have "q = Inr t'" by (simp add: plugin_requires_visit_def)
    then show "\<exists>t'. q = Inr t' \<and> (registry_ok t' \<and> reg_rel s t')"
      using b t reg_rel_trans by blast
  qed
  then show ?thesis by simp
qed

lemma register_plugin_ok:
  "registry_ok s \<Longrightarrow> register_plugin fuel prog n s = Some r \<Longrightarrow>
   \<exists>b s'. r = Inr (b, s') \<and> registry_ok s' \<and> reg_rel s s' \<and> plugins s' n = Some b"
proof (induction fuel arbitrary: s n r)
  case 0
  then show ?case by simp
next
  case (Suc fuel)
  show ?case
  proof (cases "plugins s n")
    case (Some b)
    then show ?thesis using Suc.prems by (auto simp: find_plugin_def reg_rel_refl)
  next
    case None
    define s2 where "s2 = (new_plugin n s)\<lparr>plugins := (plugins (new_plugin n s))(n \<mapsto> next_addr s)\<rparr>"
    have ok2: "registry_ok s2" and rel2: "reg_rel s s2"
      unfolding s2_def using registry_ok_new[OF Suc.prems(1) None] by simp_all
    have obj2: "plugin_objs s2 (next_addr s) = Some \<lparr>plugin_state = registered, plugin_name = n\<rparr>"
      and pl2: "plugins s2 n = Some (next_addr s)"
      by (simp_all add: s2_def new_plugin_def)
    have deps: "register_dependencies (register_plugin fuel prog) prog (next_addr s) s2 =
        seq_for_each (plugin_requires_visit (register_plugin fuel prog) (\<lambda>plug s'. Some (Inr s')))
          (requires_seq prog n) s2"
      by (simp add: register_dependencies_def obj2 plugin_requires_def)
    from Suc.prems(2) None have
      "and_then (register_dependencies (register_plugin fuel prog) prog (next_addr s) s2)
         (\<lambda>s3. Some (Inr (next_addr s, s3))) = Some r"
      by (simp add: find_plugin_def Let_def s2_def)
    then have run:
      "and_then (seq_for_each (plugin_requires_visit (register_plugin fuel prog) (\<lambda>plug s'. Some (Inr s')))
          (requires_seq prog n) s2) (\<lambda>s3. Some (Inr (next_addr s, s3))) = Some r"
      by (simp only: deps)
    then obtain r1 where r1:
      "seq_for_each (plugin_requires_visit (register_plugin fuel prog) (\<lambda>plug s'. Some (Inr s')))
          (requires_seq prog n) s2 = Some r1"
      by (cases "seq_for_each (plugin_requires_visit (register_plugin fuel prog) (\<lambda>plug s'. Some (Inr s')))
          (requires_seq prog n) s2") auto
    from visit_register_only[OF Suc.IH r1 ok2] obtain s3 where
      s3: "r1 = Inr s3" "registry_ok s3" "reg_rel s2 s3" by blast
    have "r = Inr (next_addr s, s3)" using run r1 s3(1) by simp
    moreover have "reg_rel s s3" using rel2 s3(3) by (rule reg_rel_trans)
    moreover have "plugins s3 n = Some (next_addr s)" using s3(3) pl2 by (simp add: reg_rel_def)
    ultimately show ?thesis using s3(2) by blast
  qed
qed

subsection \<open>Lifecycle calls keep the registry well formed\<close>

lemma registry_ok_plugins:
  "registry_ok s \<Longrightarrow> plugins s n = Some a \<Longrightarrow>
   \<exists>self. plugin_objs s a = Some self \<and> plugin_name self = n"
  by (simp add: registry_ok_def)

lemma registry_ok_objs:
  "registry_ok s \<Longrightarrow> plugin_objs s a = Some self \<Longrightarrow>
   a < next_addr s \<and> plugins s (plugin_name self) = Some a"
  by (simp add: registry_ok_def)

lemma registry_ok_set_state:
  assumes ok: "registry_ok s" and self: "plugin_objs s this = Some self"
  shows "registry_ok (set_state this self st s)"
  unfolding registry_ok_def
proof (intro conjI allI impI)
  fix n a
  assume "plugins (set_state this self st s) n = Some a"
  then have "plugins s n = Some a" by (simp add: set_state_def)
  from registry_ok_plugins[OF ok this] obtain x where
    x: "plugin_objs s a = Some x" "plugin_name x = n" by blast
  show "\<exists>self'. plugin_objs (set_state this self st s) a = Some self' \<and> plugin_name self' = n"
    using x self by (cases "a = this") (auto simp: set_state_def)
next
  fix a x
  assume a: "plugin_objs (set_state this self st s) a = Some x"
  then obtain y where y: "plugin_objs s a = Some y" "plugin_name y = plugin_name x"
    using self by (cases "a = this") (auto simp: set_state_def)
  from registry_ok_objs[OF ok y(1)] y(2)
  show "a < next_addr (set_state this self st s)"
    and "plugins (set_state this self st s) (plugin_name x) = Some a"
    by (simp_all add: set_state_def)
qed

lemma evolves_set_state:
  assumes "plugin_objs s this = Some self" "state_ord (plugin_state self) \<le> state_ord st"
  shows "evolves s (set_state this self st s)"
  using assms unfolding evolves_def set_state_def by auto

lemma registry_ok_notify [simp]:
  "registry_ok (plugin_initialized a s) = registry_ok s"
  "registry_ok (plugin_started a s) = registry_ok s"
  "registry_ok (log_event e s) = registry_ok s"
  by (simp_all add: registry_ok_def plugin_initialized_def plugin_started_def log_event_def)

lemma evolves_notify:
  "evolves s (plugin_initialized a (log_event e s))"
  "evolves s (plugin_started a (log_event e s))"
  "evolves s (log_event e s)"
  by (simp_all add: evolves_def plugin_initialized_def plugin_started_def log_event_def)

lemma plugin_requires_visit_Inr:
  "plugin_requires_visit reg l x t = Some (Inr t') \<longleftrightarrow>
     (\<exists>b t1. reg x t = Some (Inr (b, t1)) \<and> l b t1 = Some (Inr t'))"
  by (auto simp: plugin_requires_visit_def and_then_Inr simp del: and_then_simps)

lemma plugin_requires_ok:
  assumes visitor: "\<And>a t t'. registry_ok t \<Longrightarrow> l a t = Some (Inr t') \<Longrightarrow>
                      registry_ok t' \<and> evolves t t'"
    and run: "plugin_requires prog P (register_plugin f prog) l s = Some (Inr s')"
    and ok: "registry_ok s"
  shows "registry_ok s' \<and> evolves s s'"
proof (rule seq_for_each_Inr[OF run[unfolded plugin_requires_def]])
  show "registry_ok s \<and> evolves s s" using ok by (simp add: evolves_refl)
next
  fix x t t'
  assume t: "registry_ok t \<and> evolves s t"
    and step: "plugin_requires_visit (register_plugin f prog) l x t = Some (Inr t')"
  from step obtain b t1 where
    b: "register_plugin f prog x t = Some (Inr (b, t1))" "l b t1 = Some (Inr t')"
    by (auto simp: plugin_requires_visit_Inr)
  from register_plugin_ok[OF _ b(1)] t have t1: "registry_ok t1" "reg_rel t t1" by auto
  from visitor[OF t1(1) b(2)] have t': "registry_ok t'" "evolves t1 t'" by auto
  have "evolves s t'"
    using t t1(2) t'(2) by (blast intro: evolves_trans reg_rel_evolves)
  then show "registry_ok t' \<and> evolves s t'" using t'(1) by simp
qed

lemma initialize_ok:
  "registry_ok s \<Longrightarrow> initialize fuel prog this s = Some (Inr s') \<Longrightarrow>
   registry_ok s' \<and> evolves s s'"
proof (induction fuel arbitrary: s this s')
  case 0
  then show ?case by simp
next
  case (Suc fuel)
  from Suc.prems(2) obtain self where self: "plugin_objs s this = Some self"
    by (auto split: option.splits)
  show ?case
  proof (cases "plugin_state self = registered")
    case False
    then have "s' = s" using Suc.prems(2) self by (auto simp: and_then_Inr assert_state_Inr)
    then show ?thesis using Suc.prems(1) by (simp add: evolves_refl)
  next
    case True
    let ?s1 = "set_state this self initialized s"
    from Suc.prems(2) self True obtain s2 where
      s2: "plugin_requires prog (plugin_name self) (register_plugin fuel prog)
             (initialize fuel prog) ?s1 = Some (Inr s2)"
      and s': "s' = plugin_initialized this (log_event (Hook_initialize this) s2)"
      by (auto simp: and_then_Inr assert_state_Inr simp del: and_then_simps)
    have ok1: "registry_ok ?s1" using Suc.prems(1) self by (rule registry_ok_set_state)
    have ev1: "evolves s ?s1" using self True by (simp add: evolves_set_state)
    from plugin_requires_ok[OF Suc.IH s2 ok1] have ok2: "registry_ok s2" "evolves ?s1 s2"
      by auto
    have "evolves s s'"
      unfolding s' using ev1 ok2(2) evolves_notify(1) by (blast intro: evolves_trans)
    then show ?thesis using ok2(1) by (simp add: s')
  qed
qed

lemma startup_ok:
  "registry_ok s \<Longrightarrow> startup fuel prog this s = Some (Inr s') \<Longrightarrow>
   registry_ok s' \<and> evolves s s'"
proof (induction fuel arbitrary: s this s')
  case 0
  then show ?case by simp
next
  case (Suc fuel)
  from Suc.prems(2) obtain self where self: "plugin_objs s this = Some self"
    by (auto split: option.splits)
  show ?case
  proof (cases "plugin_state self = initialized")
    case False
    then have "s' = s" using Suc.prems(2) self by (auto simp: and_then_Inr assert_state_Inr)
    then show ?thesis using Suc.prems(1) by (simp add: evolves_refl)
  next
    case True
    let ?s1 = "set_state this self started s"
    from Suc.prems(2) self True obtain s2 where
      s2: "plugin_requires prog (plugin_name self) (register_plugin fuel prog)
             (startup fuel prog) ?s1 = Some (Inr s2)"
      and s': "s' = plugin_started this (log_event (Hook_startup this) s2)"
      by (auto simp: and_then_Inr assert_state_Inr simp del: and_then_simps)
    have ok1: "registry_ok ?s1" using Suc.prems(1) self by (rule registry_ok_set_state)
    have ev1: "evolves s ?s1" using self True by (simp add: evolves_set_state)
    from plugin_requires_ok[OF Suc.IH s2 ok1] have ok2: "registry_ok s2" "evolves ?s1 s2"
      by auto
    have "evolves s s'"
      unfolding s' using ev1 ok2(2) evolves_notify(2) by (blast intro: evolves_trans)
    then show ?thesis using ok2(1) by (simp add: s')
  qed
qed

text \<open>
  Each element of a sequence whose traversal returned was visited in some state between
  the first and the last.
\<close>

lemma seq_for_each_visited:
  assumes run: "seq_for_each f xs s = Some (Inr s')" and x: "x \<in> set xs"
    and I: "I s"
    and step: "\<And>y t t'. y \<in> set xs \<Longrightarrow> I t \<Longrightarrow> f y t = Some (Inr t') \<Longrightarrow> I t' \<and> R t t'"
    and refl: "\<And>t. R t t" and trans: "\<And>a b c. R a b \<Longrightarrow> R b c \<Longrightarrow> R a c"
  shows "\<exists>t t'. I t \<and> R s t \<and> f x t = Some (Inr t') \<and> I t' \<and> R t' s'"
  using run x I step
proof (induction xs arbitrary: s)
  case Nil
  then show ?case by simp
next
  case (Cons y ys)
  from Cons.prems(1) obtain t where t: "f y s = Some (Inr t)" "seq_for_each f ys t = Some (Inr s')"
    by (auto simp: and_then_Inr simp del: and_then_simps)
  from Cons.prems(4)[OF _ Cons.prems(3) t(1)] have It: "I t" "R s t" by auto
  have step': "I u' \<and> R u u'" if "z \<in> set ys" "I u" "f z u = Some (Inr u')" for z u u'
    using Cons.prems(4)[of z u u'] that by simp
  have rest: "I s' \<and> R t s'"
    by (rule seq_for_each_Inr[OF t(2), where I = "\<lambda>u. I u \<and> R t u"])
       (use It refl step' trans in blast)+
  show ?case
  proof (cases "x = y")
    case True
    then show ?thesis using t(1) Cons.prems(3) refl It rest by blast
  next
    case False
    then have "x \<in> set ys" using Cons.prems(2) by simp
    have "\<exists>u u'. I u \<and> R t u \<and> f x u = Some (Inr u') \<and> I u' \<and> R u' s'"
      by (rule Cons.IH[OF t(2) \<open>x \<in> set ys\<close> It(1)]) (rule step')
    then obtain u u' where
      "I u" "R t u" "f x u = Some (Inr u')" "I u'" "R u' s'" by blast
    then show ?thesis using It(2) trans by blast
  qed
qed


subsection \<open>Method and channel registries\<close>

lemma registries_ok_get:
  "registries_ok s \<Longrightarrow> registries_ok (snd (get_method d s))"
  "registries_ok s \<Longrightarrow> registries_ok (snd (get_channel d s))"
  unfolding registries_ok_def get_method_def get_channel_def Let_def
  by (auto split: option.splits simp: less_Suc_eq)

lemma get_method_stored:
  "methods (snd (get_method d s)) (decl_type d) = Some (fst (get_method d s))"
  by (simp add: get_method_def Let_def split: option.splits)

lemma get_channel_stored:
  "channels (snd (get_channel d s)) (decl_type d) = Some (fst (get_channel d s))"
  by (simp add: get_channel_def Let_def split: option.splits)

lemma get_method_present: "methods t (decl_type d) = Some a \<Longrightarrow> get_method d t = (a, t)"
  by (simp add: get_method_def)

lemma get_channel_present: "channels t (decl_type d) = Some a \<Longrightarrow> get_channel d t = (a, t)"
  by (simp add: get_channel_def)

lemma get_kept:
  "methods s k = Some a \<Longrightarrow> methods (snd (get_method d s)) k = Some a"
  "methods s k = Some a \<Longrightarrow> methods (snd (get_channel d s)) k = Some a"
  "channels s k = Some a \<Longrightarrow> channels (snd (get_method d s)) k = Some a"
  "channels s k = Some a \<Longrightarrow> channels (snd (get_channel d s)) k = Some a"
  by (auto simp: get_method_def get_channel_def Let_def split: option.splits)

lemma run_accesses_ok: "registries_ok s \<Longrightarrow> registries_ok (run_accesses cs s)"
  by (induction cs s rule: run_accesses.induct) (simp_all add: registries_ok_get)

lemma run_accesses_kept:
  "methods s k = Some a \<Longrightarrow> methods (run_accesses cs s) k = Some a"
  "channels s k = Some a \<Longrightarrow> channels (run_accesses cs s) k = Some a"
  by (induction cs s rule: run_accesses.induct) (simp_all add: get_kept)

lemma get_method_other:
  assumes "registries_ok t" "methods t k = Some a" "decl_type d \<noteq> k"
  shows "fst (get_method d t) \<noteq> a"
  using assms unfolding registries_ok_def get_method_def Let_def
  by (auto split: option.splits)

lemma get_channel_other:
  assumes "registries_ok t" "channels t k = Some a" "decl_type d \<noteq> k"
  shows "fst (get_channel d t) \<noteq> a"
  using assms unfolding registries_ok_def get_channel_def Let_def
  by (auto split: option.splits)

lemma get_method_first:
  assumes "registries_ok s" "methods s (decl_type d) = None"
  shows "fst (get_method d s) = next_addr s \<and>
         method_objs s (fst (get_method d s)) = None \<and>
         method_objs (snd (get_method d s)) =
           (method_objs s)(fst (get_method d s) \<mapsto> payload_type d) \<and>
         methods (snd (get_method d s)) = (methods s)(decl_type d \<mapsto> fst (get_method d s)) \<and>
         next_addr (snd (get_method d s)) = Suc (next_addr s)"
proof -
  have "method_objs s (next_addr s) = None"
    using assms(1) by (cases "method_objs s (next_addr s)") (auto simp: registries_ok_def)
  then show ?thesis using assms(2) by (simp add: get_method_def Let_def)
qed

lemma get_channel_first:
  assumes "registries_ok s" "channels s (decl_type d) = None"
  shows "fst (get_channel d s) = next_addr s \<and>
         channel_objs s (fst (get_channel d s)) = None \<and>
         channel_objs (snd (get_channel d s)) =
           (channel_objs s)(fst (get_channel d s) \<mapsto> payload_type d) \<and>
         channels (snd (get_channel d s)) = (channels s)(decl_type d \<mapsto> fst (get_channel d s)) \<and>
         next_addr (snd (get_channel d s)) = Suc (next_addr s)"
proof -
  have "channel_objs s (next_addr s) = None"
    using assms(1) by (cases "channel_objs s (next_addr s)") (auto simp: registries_ok_def)
  then show ?thesis using assms(2) by (simp add: get_channel_def Let_def)
qed

subsection \<open>Shutdown, and what a returned initialize leaves\<close>

lemma returned_result_state: "returned r \<Longrightarrow> r = Some (Inr (result_state r))"
  by (auto simp: returned_def result_state_def split: option.splits sum.splits)

lemma shutdown_hooks_append: "shutdown_hooks (xs @ ys) = shutdown_hooks xs @ shutdown_hooks ys"
  by (induction xs rule: shutdown_hooks.induct) simp_all

lemma shutdown_hooks_concat:
  "shutdown_hooks (concat (map (\<lambda>a. [State_set a stopped, Hook_shutdown a]) xs)) = xs"
  by (induction xs) simp_all

lemma shutdown_list:
  assumes "distinct xs"
    and "\<forall>a\<in>set xs. \<exists>self. plugin_objs s a = Some self \<and> plugin_state self = started"
  shows "\<exists>s'. seq_for_each shutdown xs s = Some (Inr s') \<and>
           trace s' = trace s @ concat (map (\<lambda>a. [State_set a stopped, Hook_shutdown a]) xs)"
  using assms
proof (induction xs arbitrary: s)
  case Nil
  then show ?case by simp
next
  case (Cons x xs)
  from Cons.prems(2) obtain self where
    self: "plugin_objs s x = Some self" "plugin_state self = started" by auto
  let ?t = "log_event (Hook_shutdown x) (set_state x self stopped s)"
  have step: "shutdown x s = Some (Inr ?t)" using self by (simp add: shutdown_def)
  have rest: "\<forall>a\<in>set xs. \<exists>self. plugin_objs ?t a = Some self \<and> plugin_state self = started"
    using Cons.prems by (auto simp: log_event_def set_state_def)
  from Cons.IH[OF _ rest] Cons.prems(1) obtain s' where
    s': "seq_for_each shutdown xs ?t = Some (Inr s')"
        "trace s' = trace ?t @ concat (map (\<lambda>a. [State_set a stopped, Hook_shutdown a]) xs)"
    by auto
  have "trace ?t = trace s @ [State_set x stopped, Hook_shutdown x]"
    by (simp add: log_event_def set_state_def)
  then show ?case using step s' by simp
qed

lemma initialize_Inr_state:
  assumes "initialize fuel prog this s = Some (Inr s1)"
  shows "\<exists>self. plugin_objs s1 this = Some self \<and> plugin_state self = initialized"
proof -
  obtain f where f: "fuel = Suc f" using assms by (cases fuel) auto
  from assms obtain self where self: "plugin_objs s this = Some self"
    unfolding f by (auto split: option.splits)
  from assms obtain t where "assert_state this initialized t = Some (Inr s1)"
    unfolding f using self by (auto simp: and_then_Inr simp del: and_then_simps)
  then show ?thesis by (auto simp: assert_state_Inr)
qed

lemma visit_ok:
  assumes visitor: "\<And>a t t'. registry_ok t \<Longrightarrow> l a t = Some (Inr t') \<Longrightarrow>
                      registry_ok t' \<and> evolves t t'"
    and t: "registry_ok t"
    and step: "plugin_requires_visit (register_plugin f prog) l x t = Some (Inr t')"
  shows "registry_ok t' \<and> evolves t t'"
proof -
  from step obtain b t1 where
    b: "register_plugin f prog x t = Some (Inr (b, t1))" "l b t1 = Some (Inr t')"
    by (auto simp: plugin_requires_visit_Inr)
  from register_plugin_ok[OF t b(1)] have t1: "registry_ok t1" "reg_rel t t1" by auto
  from visitor[OF t1(1) b(2)] have t': "registry_ok t'" "evolves t1 t'" by auto
  have "evolves t t'"
    using t1(2) t'(2) by (blast intro: evolves_trans reg_rel_evolves)
  then show ?thesis using t'(1) by simp
qed

lemma registry_ok_empty: "registry_ok empty_application"
  by (simp add: registry_ok_def empty_application_def)

lemma registries_ok_empty: "registries_ok empty_application"
  by (simp add: registries_ok_def empty_application_def)

section \<open>The traversal\<close>

text \<open>\<open>initialize\<close> and \<open>startup\<close> are the two instances of \<open>traverse\<close>.\<close>

lemma initialize_traverse: "initialize fuel prog = traverse Initializing fuel prog"
proof (induction fuel)
  case 0
  show ?case by (simp add: fun_eq_iff)
next
  case (Suc fuel)
  show ?case by (intro ext) (simp add: Suc cong: option.case_cong if_cong)
qed

lemma startup_traverse: "startup fuel prog = traverse Starting fuel prog"
proof (induction fuel)
  case 0
  show ?case by (simp add: fun_eq_iff)
next
  case (Suc fuel)
  show ?case by (intro ext) (simp add: Suc cong: option.case_cong if_cong)
qed

lemma traverse_ok:
  "registry_ok s \<Longrightarrow> traverse ph fuel prog this s = Some (Inr s') \<Longrightarrow>
   registry_ok s' \<and> evolves s s'"
  by (cases ph) (auto simp: initialize_traverse[symmetric] startup_traverse[symmetric]
      dest: initialize_ok startup_ok)

subsection \<open>Termination\<close>

text \<open>
  A call that fires takes its plugin type out of \<open>behind\<close>, and nothing ever enters that
  set; so fuel above its size is enough, whatever the declarations are.
\<close>

lemma finite_behind: "finite (behind k prog s)"
  by (simp add: behind_def)

lemma behind_evolves: "evolves s s' \<Longrightarrow> behind k prog s' \<subseteq> behind k prog s"
proof
  fix n assume ev: "evolves s s'" and n: "n \<in> behind k prog s'"
  show "n \<in> behind k prog s"
  proof (rule ccontr)
    assume "n \<notin> behind k prog s"
    with n obtain a self where a: "plugins s n = Some a" "plugin_objs s a = Some self"
      "k \<le> state_ord (plugin_state self)" by (auto simp: behind_def)
    from evolves_objs[OF ev a(2)] obtain self' where
      "plugin_objs s' a = Some self'" "state_ord (plugin_state self) \<le> state_ord (plugin_state self')"
      by blast
    with a evolves_plugins[OF ev a(1)] n show False by (auto simp: behind_def)
  qed
qed

lemma card_behind_evolves: "evolves s s' \<Longrightarrow> card (behind k prog s') \<le> card (behind k prog s)"
  by (intro card_mono finite_behind behind_evolves)

lemma seq_for_each_terminates:
  assumes "I s"
    and "\<And>x t. x \<in> set xs \<Longrightarrow> I t \<Longrightarrow> \<exists>r. f x t = Some r \<and> (\<forall>t'. r = Inr t' \<longrightarrow> I t')"
  shows "\<exists>r. seq_for_each f xs s = Some r \<and> (\<forall>s'. r = Inr s' \<longrightarrow> I s')"
  using assms
proof (induction xs arbitrary: s)
  case Nil
  then show ?case by simp
next
  case (Cons x xs)
  from Cons.prems(2)[of x s] Cons.prems(1) obtain r where
    r: "f x s = Some r" "\<forall>t'. r = Inr t' \<longrightarrow> I t'" by auto
  show ?case
  proof (cases r)
    case (Inl e)
    then show ?thesis using r by simp
  next
    case (Inr t)
    then have "I t" using r(2) by simp
    from Cons.IH[OF this] Cons.prems(2) obtain r' where
      "seq_for_each f xs t = Some r'" "\<forall>s'. r' = Inr s' \<longrightarrow> I s'" by auto
    then show ?thesis using r(1) Inr by simp
  qed
qed

lemma behind_zero: "behind 0 prog s \<subseteq> behind k prog s"
  by (auto simp: behind_def)

lemma requires_seq_undeclared: "n \<notin> fst ` set prog \<Longrightarrow> requires_seq prog n = []"
  by (simp add: requires_seq_def map_of_eq_None_iff[THEN iffD2])

lemma and_then_total:
  "r = Some x \<Longrightarrow> (\<And>y. \<exists>z. k y = Some z) \<Longrightarrow> \<exists>z. and_then r k = Some z"
  by (cases x) (auto simp: and_then_def)

lemma assert_state_total: "\<exists>z. assert_state this st s = Some z"
  by (simp add: assert_state_def split: option.splits)

lemma card_behind_less:
  assumes "behind k prog s' \<subseteq> behind k prog s" "n \<in> behind k prog s" "n \<notin> behind k prog s'"
    and "card (behind k prog s) < Suc fuel"
  shows "card (behind k prog s') < fuel"
proof -
  have "behind k prog s' \<subset> behind k prog s" using assms(1-3) by blast
  then have "card (behind k prog s') < card (behind k prog s)"
    by (rule psubset_card_mono[OF finite_behind])
  then show ?thesis using assms(4) by simp
qed

lemma register_plugin_terminates:
  "registry_ok s \<Longrightarrow> card (behind 0 prog s) < fuel \<Longrightarrow>
   \<exists>b s'. register_plugin fuel prog n s = Some (Inr (b, s'))"
proof (induction fuel arbitrary: s n)
  case 0
  then show ?case by simp
next
  case (Suc fuel)
  show ?case
  proof (cases "plugins s n")
    case (Some b)
    then show ?thesis by (simp add: find_plugin_def)
  next
    case None
    define s2 where "s2 = (new_plugin n s)\<lparr>plugins := (plugins (new_plugin n s))(n \<mapsto> next_addr s)\<rparr>"
    let ?f = "plugin_requires_visit (register_plugin fuel prog) (\<lambda>plug s'. Some (Inr s'))"
    have ok2: "registry_ok s2" and rel2: "reg_rel s s2"
      unfolding s2_def using registry_ok_new[OF Suc.prems(1) None] by simp_all
    have obj2: "plugin_objs s2 (next_addr s) = Some \<lparr>plugin_state = registered, plugin_name = n\<rparr>"
      and pl2: "plugins s2 n = Some (next_addr s)"
      by (simp_all add: s2_def new_plugin_def)
    have deps: "register_dependencies (register_plugin fuel prog) prog (next_addr s) s2 =
        seq_for_each ?f (requires_seq prog n) s2"
      by (simp add: register_dependencies_def obj2 plugin_requires_def)
    have loop: "\<exists>r. seq_for_each ?f (requires_seq prog n) s2 = Some r"
    proof (cases "n \<in> fst ` set prog")
      case False
      then show ?thesis by (simp add: requires_seq_undeclared)
    next
      case True
      have "n \<in> behind 0 prog s" using True None by (simp add: behind_def)
      moreover have "n \<notin> behind 0 prog s2" using pl2 obj2 by (simp add: behind_def)
      moreover have "behind 0 prog s2 \<subseteq> behind 0 prog s"
        using rel2 by (intro behind_evolves reg_rel_evolves)
      ultimately have small: "card (behind 0 prog s2) < fuel"
        using Suc.prems(2) by (intro card_behind_less[of 0 prog s2 s n])
      have "\<exists>r. seq_for_each ?f (requires_seq prog n) s2 = Some r \<and>
              (\<forall>s'. r = Inr s' \<longrightarrow> registry_ok s' \<and> card (behind 0 prog s') < fuel)"
      proof (rule seq_for_each_terminates)
        show "registry_ok s2 \<and> card (behind 0 prog s2) < fuel" using ok2 small by simp
      next
        fix x t
        assume t: "registry_ok t \<and> card (behind 0 prog t) < fuel"
        from Suc.IH[of t x] t obtain b t' where
          b: "register_plugin fuel prog x t = Some (Inr (b, t'))" by blast
        from register_plugin_ok[OF _ b] t have t': "registry_ok t'" "reg_rel t t'" by auto
        have "card (behind 0 prog t') \<le> card (behind 0 prog t)"
          using t'(2) by (intro card_behind_evolves reg_rel_evolves)
        then show "\<exists>r. ?f x t = Some r \<and>
            (\<forall>t'. r = Inr t' \<longrightarrow> registry_ok t' \<and> card (behind 0 prog t') < fuel)"
          using b t t'(1) by (simp add: plugin_requires_visit_def)
      qed
      then show ?thesis by blast
    qed
    then obtain r where "seq_for_each ?f (requires_seq prog n) s2 = Some r" by blast
    then have "\<exists>z. register_plugin (Suc fuel) prog n s = Some z"
      using None by (simp add: find_plugin_def Let_def s2_def[symmetric] deps and_then_total)
    then show ?thesis using register_plugin_ok[OF Suc.prems(1)] by blast
  qed
qed

lemma traverse_terminates:
  "registry_ok s \<Longrightarrow> card (behind (state_ord (leads_to ph)) prog s) < fuel \<Longrightarrow>
   \<exists>r. traverse ph fuel prog this s = Some r"
proof (induction fuel arbitrary: s this)
  case 0
  then show ?case by simp
next
  case (Suc fuel)
  let ?k = "state_ord (leads_to ph)"
  show ?case
  proof (cases "plugin_objs s this")
    case None
    then show ?thesis by simp
  next
    case (Some self)
    show ?thesis
    proof (cases "plugin_state self = fires_from ph")
      case False
      then show ?thesis using Some assert_state_total[of this "leads_to ph" s] by simp
    next
      case True
      define s1 where "s1 = set_state this self (leads_to ph) s"
      let ?f = "plugin_requires_visit (register_plugin fuel prog) (traverse ph fuel prog)"
      have ok1: "registry_ok s1" unfolding s1_def using Suc.prems(1) Some
        by (rule registry_ok_set_state)
      have ev1: "evolves s s1" unfolding s1_def using Some True
        by (intro evolves_set_state) (cases ph; simp)+
      from registry_ok_objs[OF Suc.prems(1) Some] have reg: "plugins s (plugin_name self) = Some this"
        by simp
      have loop: "\<exists>r. seq_for_each ?f (requires_seq prog (plugin_name self)) s1 = Some r"
      proof (cases "plugin_name self \<in> fst ` set prog")
        case False
        then show ?thesis by (simp add: requires_seq_undeclared)
      next
        case declared: True
        have "\<not> ?k \<le> state_ord (plugin_state self)" using True by (cases ph) simp_all
        then have "plugin_name self \<in> behind ?k prog s"
          using declared reg Some by (simp add: behind_def)
        moreover have "plugin_name self \<notin> behind ?k prog s1"
          using reg by (simp add: behind_def s1_def set_state_def)
        moreover have "behind ?k prog s1 \<subseteq> behind ?k prog s"
          using ev1 by (rule behind_evolves)
        ultimately have small: "card (behind ?k prog s1) < fuel"
          using Suc.prems(2) by (intro card_behind_less[of ?k prog s1 s "plugin_name self"])
        have "\<exists>r. seq_for_each ?f (requires_seq prog (plugin_name self)) s1 = Some r \<and>
                (\<forall>s'. r = Inr s' \<longrightarrow> registry_ok s' \<and> card (behind ?k prog s') < fuel)"
        proof (rule seq_for_each_terminates)
          show "registry_ok s1 \<and> card (behind ?k prog s1) < fuel" using ok1 small by simp
        next
          fix x t
          assume t: "registry_ok t \<and> card (behind ?k prog t) < fuel"
          have "card (behind 0 prog t) \<le> card (behind ?k prog t)"
            by (intro card_mono finite_behind behind_zero)
          with t have "card (behind 0 prog t) < fuel" by simp
          from register_plugin_terminates[OF _ this] t obtain b t1 where
            b: "register_plugin fuel prog x t = Some (Inr (b, t1))" by blast
          from register_plugin_ok[OF _ b] t have t1: "registry_ok t1" "reg_rel t t1" by auto
          have "card (behind ?k prog t1) \<le> card (behind ?k prog t)"
            using t1(2) by (intro card_behind_evolves reg_rel_evolves)
          with t have small1: "card (behind ?k prog t1) < fuel" by simp
          from Suc.IH[OF t1(1) small1] obtain r where r: "traverse ph fuel prog b t1 = Some r"
            by blast
          have "registry_ok t' \<and> card (behind ?k prog t') < fuel" if "r = Inr t'" for t'
          proof -
            from traverse_ok[OF t1(1) r[unfolded that]] have "registry_ok t'" "evolves t1 t'"
              by auto
            then show ?thesis using card_behind_evolves[of t1 t' ?k prog] small1 by simp
          qed
          then show "\<exists>r. ?f x t = Some r \<and>
              (\<forall>t'. r = Inr t' \<longrightarrow> registry_ok t' \<and> card (behind ?k prog t') < fuel)"
            using b r by (simp add: plugin_requires_visit_def)
        qed
        then show ?thesis by blast
      qed
      then obtain r where "seq_for_each ?f (requires_seq prog (plugin_name self)) s1 = Some r"
        by blast
      then show ?thesis
        using Some True assert_state_total[of this "leads_to ph"]
        by (cases r) (auto simp: s1_def[symmetric] plugin_requires_def)
    qed
  qed
qed

subsection \<open>No failing assertion\<close>

text \<open>From a \<open>safe\<close> application a traversal that ends, ends by returning.\<close>

lemma state_ord_inj: "state_ord x = state_ord y \<Longrightarrow> x = y"
  by (cases x; cases y) simp_all

lemma none_past_reg_rel:
  assumes "none_past k s" "reg_rel s s'"
  shows "none_past k s'"
  unfolding none_past_def
proof (intro allI impI)
  fix a self assume a: "plugin_objs s' a = Some self"
  show "state_ord (plugin_state self) \<le> k"
  proof (cases "plugin_objs s a")
    case None
    then have "plugin_state self = registered" using assms(2) a by (simp add: reg_rel_def)
    then show ?thesis by simp
  next
    case (Some x)
    then have "plugin_objs s' a = Some x" using assms(2) by (simp add: reg_rel_def)
    then show ?thesis using a Some assms(1) by (simp add: none_past_def)
  qed
qed

lemma deps_ready_reg_rel:
  assumes "deps_ready prog s" "reg_rel s s'"
  shows "deps_ready prog s'"
  unfolding deps_ready_def
proof (intro allI impI ballI)
  fix a self d
  assume a: "plugin_objs s' a = Some self" "plugin_state self \<noteq> registered"
    and d: "d \<in> set (requires_seq prog (plugin_name self))"
  have "plugin_objs s a = Some self"
  proof (cases "plugin_objs s a")
    case None
    then show ?thesis using assms(2) a by (simp add: reg_rel_def)
  next
    case (Some x)
    then have "plugin_objs s' a = Some x" using assms(2) by (simp add: reg_rel_def)
    then show ?thesis using a Some by simp
  qed
  with assms(1) a(2) d obtain b dep where
    "plugins s d = Some b" "plugin_objs s b = Some dep" "plugin_state dep \<noteq> registered"
    unfolding deps_ready_def by blast
  then show "\<exists>b dep. plugins s' d = Some b \<and> plugin_objs s' b = Some dep \<and>
                   plugin_state dep \<noteq> registered"
    using assms(2) by (auto simp: reg_rel_def)
qed

lemma safe_reg_rel: "safe ph prog s \<Longrightarrow> reg_rel s s' \<Longrightarrow> safe ph prog s'"
  by (cases ph) (auto intro: none_past_reg_rel deps_ready_reg_rel simp: reg_rel_def)

lemma none_past_set_state:
  "none_past k s \<Longrightarrow> state_ord st \<le> k \<Longrightarrow> none_past k (set_state this self st s)"
  by (auto simp: none_past_def set_state_def)

lemma deps_ready_set_state:
  assumes "deps_ready prog s" "plugin_objs s this = Some self"
    "plugin_state self \<noteq> registered" "st \<noteq> registered"
  shows "deps_ready prog (set_state this self st s)"
  unfolding deps_ready_def
proof (intro allI impI ballI)
  fix a x d
  assume a: "plugin_objs (set_state this self st s) a = Some x" "plugin_state x \<noteq> registered"
    and d: "d \<in> set (requires_seq prog (plugin_name x))"
  obtain y where y: "plugin_objs s a = Some y" "plugin_name y = plugin_name x"
    "plugin_state y \<noteq> registered"
    using a assms(2,3) by (cases "a = this") (auto simp: set_state_def)
  with assms(1) d obtain b dep where
    b: "plugins s d = Some b" "plugin_objs s b = Some dep" "plugin_state dep \<noteq> registered"
    unfolding deps_ready_def by metis
  show "\<exists>b dep. plugins (set_state this self st s) d = Some b \<and>
          plugin_objs (set_state this self st s) b = Some dep \<and> plugin_state dep \<noteq> registered"
    using b assms(2,4) by (cases "b = this") (auto simp: set_state_def)
qed

lemma safe_set_state:
  assumes "safe ph prog s" "plugin_objs s this = Some self" "plugin_state self = fires_from ph"
  shows "safe ph prog (set_state this self (leads_to ph) s)"
proof (cases ph)
  case Initializing
  then show ?thesis using assms(1) none_past_set_state[of 1 s initialized this self]
    by (simp add: set_state_def)
next
  case Starting
  then show ?thesis
    using assms none_past_set_state[of 2 s started this self]
      deps_ready_set_state[of prog s this self started] by simp
qed

lemma safe_notify:
  "safe ph prog (notify ph this (log_event e s)) = safe ph prog s"
  by (cases ph)
     (simp_all add: none_past_def deps_ready_def plugin_initialized_def plugin_started_def
        log_event_def)

lemma notify_fields [simp]:
  "plugin_objs (notify ph this (log_event e s)) = plugin_objs s"
  "plugins (notify ph this (log_event e s)) = plugins s"
  "order_of ph (notify ph this (log_event e s)) = order_of ph s @ [this]"
  by (cases ph; simp add: plugin_initialized_def plugin_started_def log_event_def)+

lemma registry_ok_notify_ph [simp]:
  "registry_ok (notify ph this (log_event e s)) = registry_ok s"
  by (simp add: registry_ok_def) (cases ph; simp add: plugin_initialized_def plugin_started_def log_event_def)

lemma traverse_Suc_fires:
  assumes "plugin_objs s this = Some self" "plugin_state self = fires_from ph"
  shows "traverse ph (Suc fuel) prog this s =
     and_then
       (and_then
          (seq_for_each (plugin_requires_visit (register_plugin fuel prog) (traverse ph fuel prog))
             (requires_seq prog (plugin_name self)) (set_state this self (leads_to ph) s))
          (\<lambda>s2. Some (Inr (notify ph this (log_event (hook_of ph this) s2)))))
       (assert_state this (leads_to ph))"
  using assms by (simp add: plugin_requires_def)

lemma traverse_Suc_skips:
  assumes "plugin_objs s this = Some self" "plugin_state self \<noteq> fires_from ph"
  shows "traverse ph (Suc fuel) prog this s = assert_state this (leads_to ph) s"
  using assms by simp

lemma seq_for_each_total:
  assumes "I s"
    and "\<And>x t. x \<in> set xs \<Longrightarrow> I t \<Longrightarrow> \<exists>t'. f x t = Some (Inr t') \<and> I t'"
  shows "\<exists>s'. seq_for_each f xs s = Some (Inr s') \<and> I s'"
  using assms
proof (induction xs arbitrary: s)
  case Nil
  then show ?case by simp
next
  case (Cons x xs)
  from Cons.prems(2)[of x s] Cons.prems(1) obtain t where t: "f x s = Some (Inr t)" "I t"
    by auto
  from Cons.IH[OF t(2)] Cons.prems(2) obtain s' where
    "seq_for_each f xs t = Some (Inr s')" "I s'" by auto
  then show ?case using t(1) by simp
qed

lemma traverse_returns:
  "registry_ok s \<Longrightarrow> safe ph prog s \<Longrightarrow> plugin_objs s this = Some self \<Longrightarrow>
   callable ph self \<Longrightarrow> traverse ph fuel prog this s = Some r \<Longrightarrow>
   \<exists>s'. r = Inr s' \<and> safe ph prog s'"
proof (induction fuel arbitrary: s this self r)
  case 0
  then show ?case by simp
next
  case (Suc fuel)
  let ?k = "state_ord (leads_to ph)"
  have past: "none_past ?k s" using Suc.prems(2) by (cases ph) simp_all
  show ?case
  proof (cases "plugin_state self = fires_from ph")
    case False
    have "state_ord (plugin_state self) \<le> ?k"
      using past Suc.prems(3) by (simp add: none_past_def)
    then have "plugin_state self = leads_to ph"
      using False Suc.prems(4) by (cases ph; cases "plugin_state self") simp_all
    then have "traverse ph (Suc fuel) prog this s = Some (Inr s)"
      using traverse_Suc_skips[OF Suc.prems(3) False] Suc.prems(3) by (simp add: assert_state_def)
    with Suc.prems(5) have "r = Inr s" by simp
    then show ?thesis using Suc.prems(2) by simp
  next
    case True
    define s1 where "s1 = set_state this self (leads_to ph) s"
    let ?f = "plugin_requires_visit (register_plugin fuel prog) (traverse ph fuel prog)"
    let ?ds = "requires_seq prog (plugin_name self)"
    let ?I = "\<lambda>t. registry_ok t \<and> safe ph prog t \<and> evolves s1 t"
    have ok1: "registry_ok s1" unfolding s1_def using Suc.prems(1,3) by (rule registry_ok_set_state)
    have safe1: "safe ph prog s1" unfolding s1_def using Suc.prems(2,3) True by (rule safe_set_state)
    have obj1: "plugin_objs s1 this = Some (self\<lparr>plugin_state := leads_to ph\<rparr>)"
      by (simp add: s1_def set_state_def)
    from Suc.prems(5) have run:
      "and_then (and_then (seq_for_each ?f ?ds s1)
          (\<lambda>s2. Some (Inr (notify ph this (log_event (hook_of ph this) s2)))))
          (assert_state this (leads_to ph)) = Some r"
      unfolding traverse_Suc_fires[OF Suc.prems(3) True] s1_def .
    then obtain r1 where r1: "seq_for_each ?f ?ds s1 = Some r1"
      by (cases "seq_for_each ?f ?ds s1") auto
    have "\<exists>s2. r1 = Inr s2 \<and> ?I s2"
    proof (rule seq_for_each_Some[OF r1])
      show "?I s1" using ok1 safe1 by (simp add: evolves_refl)
    next
      fix x t q
      assume x: "x \<in> set ?ds" and t: "?I t" and q: "?f x t = Some q"
      from q obtain q0 where q0: "register_plugin fuel prog x t = Some q0"
        by (cases "register_plugin fuel prog x t") (auto simp: plugin_requires_visit_def)
      from register_plugin_ok[OF _ q0] t obtain b t1 where
        b: "q0 = Inr (b, t1)" "registry_ok t1" "reg_rel t t1" "plugins t1 x = Some b" by blast
      from registry_ok_plugins[OF b(2,4)] obtain selfb where
        selfb: "plugin_objs t1 b = Some selfb" "plugin_name selfb = x" by blast
      have safe_t1: "safe ph prog t1" using t b(3) by (blast intro: safe_reg_rel)
      have call: "callable ph selfb"
      proof (cases ph)
        case Initializing
        then show ?thesis by simp
      next
        case Starting
        from evolves_objs[of s1 t, OF _ obj1] t obtain me where
          me: "plugin_objs t this = Some me" "plugin_name me = plugin_name self"
            "state_ord (leads_to ph) \<le> state_ord (plugin_state me)" by auto
        have "plugin_state me \<noteq> registered" using me(3) Starting by (cases "plugin_state me") auto
        moreover have "deps_ready prog t" using t Starting by simp
        ultimately obtain b' dep where
          dep: "plugins t x = Some b'" "plugin_objs t b' = Some dep" "plugin_state dep \<noteq> registered"
          using me(1,2) x unfolding deps_ready_def by metis
        from dep(1,2) b(3) have "plugins t1 x = Some b'" "plugin_objs t1 b' = Some dep"
          by (simp_all add: reg_rel_def)
        with b(4) selfb(1) have "selfb = dep" by simp
        then show ?thesis using dep(3) Starting by simp
      qed
      from q q0 b(1) have trav: "traverse ph fuel prog b t1 = Some q"
        by (simp add: plugin_requires_visit_def)
      from Suc.IH[OF b(2) safe_t1 selfb(1) call trav] obtain t' where
        t': "q = Inr t'" "safe ph prog t'" by blast
      from traverse_ok[OF b(2) trav[unfolded t'(1)]] have "registry_ok t'" "evolves t1 t'"
        by auto
      moreover have "evolves s1 t1" using t b(3) by (blast intro: evolves_trans reg_rel_evolves)
      ultimately show "\<exists>t'. q = Inr t' \<and> ?I t'"
        using t' by (blast intro: evolves_trans)
    qed
    then obtain s2 where s2: "r1 = Inr s2" "registry_ok s2" "safe ph prog s2" "evolves s1 s2"
      by blast
    from evolves_objs[OF s2(4) obj1] obtain me where
      me: "plugin_objs s2 this = Some me" "?k \<le> state_ord (plugin_state me)" by auto
    have "none_past ?k s2" using s2(3) by (cases ph) simp_all
    with me have "state_ord (plugin_state me) = ?k" by (fastforce simp: none_past_def)
    then have "plugin_state me = leads_to ph" by (rule state_ord_inj)
    then have "r = Inr (notify ph this (log_event (hook_of ph this) s2))"
      using run r1 s2(1) me(1) by (simp add: assert_state_def)
    then show ?thesis using s2(3) by (simp add: safe_notify)
  qed
qed

subsection \<open>The order lists\<close>

text \<open>
  With a ranking of the plugin types, the plugins in progress all rank above the plugin
  being visited, so no visit meets a plugin in progress, and each plugin is appended
  after all its dependencies.
\<close>

lemma precedes_append: "precedes b a L \<Longrightarrow> precedes b a (L @ M)"
  by (auto simp: precedes_def takeWhile_append1)

lemma precedes_snoc: "b \<in> set L \<Longrightarrow> a \<notin> set L \<Longrightarrow> precedes b a (L @ [a])"
proof -
  assume b: "b \<in> set L" and a: "a \<notin> set L"
  have "takeWhile (\<lambda>z. z \<noteq> a) (L @ [a]) = L @ takeWhile (\<lambda>z. z \<noteq> a) [a]"
    using a by (intro takeWhile_append2) auto
  then show ?thesis using b by (simp add: precedes_def)
qed

lemma precedes_in_set: "precedes b a L \<Longrightarrow> b \<in> set L"
  by (auto simp: precedes_def dest: set_takeWhileD)

lemma order_of_reg_rel: "reg_rel s s' \<Longrightarrow> order_of ph s' = order_of ph s"
  by (cases ph) (simp_all add: reg_rel_def)

lemma order_of_set_state [simp]: "order_of ph (set_state this self st s) = order_of ph s"
  by (cases ph) (simp_all add: set_state_def)

lemma level_pos: "state_ord (leads_to ph) \<le> state_ord x \<Longrightarrow> x \<noteq> registered"
  by (cases ph; cases x) simp_all

lemma fires_below: "\<not> state_ord (leads_to ph) \<le> state_ord (fires_from ph)"
  by (cases ph) simp_all

lemma order_inv_reg_rel:
  assumes inv: "order_inv ph prog X s" and rel: "reg_rel s s'" and ok: "registry_ok s'"
  shows "order_inv ph prog X s'"
proof -
  let ?L = "order_of ph s"
  have L: "order_of ph s' = ?L" using rel by (rule order_of_reg_rel)
  have keep: "plugin_objs s' a = Some self" if "plugin_objs s a = Some self" for a self
    using rel that by (simp add: reg_rel_def)
  have old: "plugin_objs s a = Some self"
    if "plugin_objs s' a = Some self" "plugin_state self \<noteq> registered" for a self
  proof (cases "plugin_objs s a")
    case None
    then show ?thesis using rel that by (simp add: reg_rel_def)
  next
    case (Some x)
    then show ?thesis using keep[OF Some] that by simp
  qed
  have B: "\<forall>a\<in>set ?L. \<exists>self. plugin_objs s' a = Some self \<and>
        state_ord (leads_to ph) \<le> state_ord (plugin_state self) \<and> plugin_name self \<notin> X"
    using inv keep unfolding order_inv_def by blast
  have C: "\<forall>a self. plugin_objs s' a = Some self \<longrightarrow>
        state_ord (leads_to ph) \<le> state_ord (plugin_state self) \<longrightarrow>
        plugin_name self \<notin> X \<longrightarrow> a \<in> set ?L"
    using inv old level_pos unfolding order_inv_def by blast
  have T: "topo prog s' ?L"
    unfolding topo_def
  proof (intro ballI allI impI)
    fix a self d
    assume a: "a \<in> set ?L" "plugin_objs s' a = Some self"
      and d: "d \<in> set (requires_seq prog (plugin_name self))"
    from B a obtain x where "plugin_objs s' a = Some x"
      "state_ord (leads_to ph) \<le> state_ord (plugin_state x)" by blast
    with a(2) have "plugin_state self \<noteq> registered" using level_pos by auto
    from old[OF a(2) this] have "plugin_objs s a = Some self" .
    with inv a(1) d obtain b where "plugins s d = Some b" "precedes b a ?L"
      unfolding order_inv_def topo_def by blast
    then show "\<exists>b. plugins s' d = Some b \<and> precedes b a ?L"
      using rel by (auto simp: reg_rel_def)
  qed
  show ?thesis unfolding order_inv_def L using ok B C T by simp
qed

lemma order_inv_fire:
  assumes inv: "order_inv ph prog X s" and self: "plugin_objs s this = Some self"
    and fires: "plugin_state self = fires_from ph"
  shows "order_inv ph prog (insert (plugin_name self) X) (set_state this self (leads_to ph) s)"
proof -
  let ?s1 = "set_state this self (leads_to ph) s"
  let ?L = "order_of ph s"
  have ok: "registry_ok s" using inv by (simp add: order_inv_def)
  have ok1: "registry_ok ?s1" using ok self by (rule registry_ok_set_state)
  have notin: "this \<notin> set ?L"
    using inv self fires fires_below[of ph] unfolding order_inv_def by fastforce
  have other: "plugin_objs ?s1 a = plugin_objs s a" if "a \<noteq> this" for a
    using that by (simp add: set_state_def)
  have me: "plugin_objs ?s1 this = Some (self\<lparr>plugin_state := leads_to ph\<rparr>)"
    by (simp add: set_state_def)
  have uniq: "a = this" if "plugin_objs s a = Some x" "plugin_name x = plugin_name self" for a x
    using registry_ok_objs[OF ok that(1)] registry_ok_objs[OF ok self] that(2) by simp
  have B: "\<forall>a\<in>set ?L. \<exists>x. plugin_objs ?s1 a = Some x \<and>
        state_ord (leads_to ph) \<le> state_ord (plugin_state x) \<and>
        plugin_name x \<notin> insert (plugin_name self) X"
  proof
    fix a assume a: "a \<in> set ?L"
    then have ne: "a \<noteq> this" using notin by auto
    from inv a obtain x where x: "plugin_objs s a = Some x"
      "state_ord (leads_to ph) \<le> state_ord (plugin_state x)" "plugin_name x \<notin> X"
      unfolding order_inv_def by blast
    have "plugin_name x \<noteq> plugin_name self" using uniq[OF x(1)] ne by auto
    then show "\<exists>x. plugin_objs ?s1 a = Some x \<and>
        state_ord (leads_to ph) \<le> state_ord (plugin_state x) \<and>
        plugin_name x \<notin> insert (plugin_name self) X"
      using x other[OF ne] by simp
  qed
  have C: "\<forall>a x. plugin_objs ?s1 a = Some x \<longrightarrow>
        state_ord (leads_to ph) \<le> state_ord (plugin_state x) \<longrightarrow>
        plugin_name x \<notin> insert (plugin_name self) X \<longrightarrow> a \<in> set ?L"
  proof (intro allI impI)
    fix a x
    assume a: "plugin_objs ?s1 a = Some x" "state_ord (leads_to ph) \<le> state_ord (plugin_state x)"
      "plugin_name x \<notin> insert (plugin_name self) X"
    have ne: "a \<noteq> this" using a(1,3) me by auto
    then show "a \<in> set ?L" using inv a other[OF ne] unfolding order_inv_def by auto
  qed
  have T: "topo prog ?s1 ?L"
    unfolding topo_def
  proof (intro ballI allI impI)
    fix a x d
    assume a: "a \<in> set ?L" "plugin_objs ?s1 a = Some x"
      and d: "d \<in> set (requires_seq prog (plugin_name x))"
    have ne: "a \<noteq> this" using a(1) notin by auto
    with a(2) other have "plugin_objs s a = Some x" by simp
    with inv a(1) d obtain b where "plugins s d = Some b" "precedes b a ?L"
      unfolding order_inv_def topo_def by blast
    then show "\<exists>b. plugins ?s1 d = Some b \<and> precedes b a ?L"
      by (auto simp: set_state_def)
  qed
  show ?thesis unfolding order_inv_def using ok1 B C T by simp
qed

lemma order_inv_close:
  assumes inv: "order_inv ph prog (insert P X) s2"
    and me: "plugin_objs s2 this = Some me" "plugin_name me = P"
      "state_ord (leads_to ph) \<le> state_ord (plugin_state me)"
    and PX: "P \<notin> X"
    and deps: "\<forall>d\<in>set (requires_seq prog P). \<exists>b. plugins s2 d = Some b \<and> b \<in> set (order_of ph s2)"
  shows "order_inv ph prog X (notify ph this (log_event e s2))"
proof -
  let ?L = "order_of ph s2"
  have ok: "registry_ok s2" using inv by (simp add: order_inv_def)
  have notin: "this \<notin> set ?L" using inv me(1,2) unfolding order_inv_def by fastforce
  have B: "\<forall>a\<in>set (?L @ [this]). \<exists>x. plugin_objs s2 a = Some x \<and>
        state_ord (leads_to ph) \<le> state_ord (plugin_state x) \<and> plugin_name x \<notin> X"
    using inv me PX unfolding order_inv_def by fastforce
  have C: "\<forall>a x. plugin_objs s2 a = Some x \<longrightarrow>
        state_ord (leads_to ph) \<le> state_ord (plugin_state x) \<longrightarrow>
        plugin_name x \<notin> X \<longrightarrow> a \<in> set (?L @ [this])"
  proof (intro allI impI)
    fix a x
    assume a: "plugin_objs s2 a = Some x" "state_ord (leads_to ph) \<le> state_ord (plugin_state x)"
      "plugin_name x \<notin> X"
    show "a \<in> set (?L @ [this])"
    proof (cases "plugin_name x = P")
      case True
      then have "a = this"
        using registry_ok_objs[OF ok a(1)] registry_ok_objs[OF ok me(1)] me(2) by simp
      then show ?thesis by simp
    next
      case False
      then show ?thesis using inv a unfolding order_inv_def by auto
    qed
  qed
  have T: "topo prog s2 (?L @ [this])"
    unfolding topo_def
  proof (intro ballI allI impI)
    fix a x d
    assume a: "a \<in> set (?L @ [this])" "plugin_objs s2 a = Some x"
      and d: "d \<in> set (requires_seq prog (plugin_name x))"
    show "\<exists>b. plugins s2 d = Some b \<and> precedes b a (?L @ [this])"
    proof (cases "a = this")
      case True
      then have "plugin_name x = P" using a(2) me by simp
      with deps d obtain b where "plugins s2 d = Some b" "b \<in> set ?L" by blast
      then show ?thesis using True notin by (blast intro: precedes_snoc)
    next
      case False
      then have "a \<in> set ?L" using a(1) by simp
      with inv a(2) d obtain b where "plugins s2 d = Some b" "precedes b a ?L"
        unfolding order_inv_def topo_def by blast
      then show ?thesis by (blast intro: precedes_append)
    qed
  qed
  show ?thesis unfolding order_inv_def using ok B C T by (simp add: topo_def)
qed

lemma traverse_order:
  fixes rank :: "string \<Rightarrow> nat"
  assumes rank: "\<And>P d. d \<in> set (requires_seq prog P) \<Longrightarrow> rank d < rank P"
  shows "order_inv ph prog X s \<Longrightarrow> plugin_objs s this = Some self \<Longrightarrow>
         \<forall>x\<in>X. rank (plugin_name self) < rank x \<Longrightarrow>
         traverse ph fuel prog this s = Some (Inr s') \<Longrightarrow>
         order_inv ph prog X s' \<and> this \<in> set (order_of ph s')"
proof (induction fuel arbitrary: s this self X s')
  case 0
  then show ?case by simp
next
  case (Suc fuel)
  let ?P = "plugin_name self"
  have PX: "?P \<notin> X" using Suc.prems(3) by auto
  show ?case
  proof (cases "plugin_state self = fires_from ph")
    case False
    from Suc.prems(4) have "assert_state this (leads_to ph) s = Some (Inr s')"
      unfolding traverse_Suc_skips[OF Suc.prems(2) False] .
    then have "s' = s" "plugin_state self = leads_to ph"
      using Suc.prems(2) by (auto simp: assert_state_Inr)
    then show ?thesis using Suc.prems(1,2) PX unfolding order_inv_def by auto
  next
    case True
    define s1 where "s1 = set_state this self (leads_to ph) s"
    let ?f = "plugin_requires_visit (register_plugin fuel prog) (traverse ph fuel prog)"
    let ?ds = "requires_seq prog ?P"
    let ?X = "insert ?P X"
    let ?I = "order_inv ph prog ?X"
    from Suc.prems(4) obtain s2 where
      s2: "seq_for_each ?f ?ds s1 = Some (Inr s2)"
      and s': "s' = notify ph this (log_event (hook_of ph this) s2)"
      unfolding traverse_Suc_fires[OF Suc.prems(2) True] s1_def[symmetric]
      by (auto simp: and_then_Inr assert_state_Inr simp del: and_then_simps)
    have inv1: "?I s1" unfolding s1_def using Suc.prems(1,2) True by (rule order_inv_fire)
    have obj1: "plugin_objs s1 this = Some (self\<lparr>plugin_state := leads_to ph\<rparr>)"
      by (simp add: s1_def set_state_def)
    have step: "?I t' \<and> evolves t t' \<and>
        (\<exists>b. plugins t' d = Some b \<and> b \<in> set (order_of ph t'))"
      if d: "d \<in> set ?ds" and t: "?I t" and run: "?f d t = Some (Inr t')" for d t t'
    proof -
      have okt: "registry_ok t" using t by (simp add: order_inv_def)
      from run obtain b t1 where
        b: "register_plugin fuel prog d t = Some (Inr (b, t1))"
           "traverse ph fuel prog b t1 = Some (Inr t')"
        by (auto simp: plugin_requires_visit_Inr)
      from register_plugin_ok[OF okt b(1)] have
        t1: "registry_ok t1" "reg_rel t t1" "plugins t1 d = Some b" by auto
      from registry_ok_plugins[OF t1(1,3)] obtain selfb where
        selfb: "plugin_objs t1 b = Some selfb" "plugin_name selfb = d" by blast
      have inv_t1: "?I t1" using t t1(2,1) by (rule order_inv_reg_rel)
      have ranks: "\<forall>x\<in>?X. rank (plugin_name selfb) < rank x"
        using rank[OF d] Suc.prems(3) selfb(2) by auto
      from Suc.IH[OF inv_t1 selfb(1) ranks b(2)] have
        t': "?I t'" "b \<in> set (order_of ph t')" by auto
      from traverse_ok[OF t1(1) b(2)] have ev: "evolves t1 t'" by simp
      have "evolves t t'" using t1(2) ev by (blast intro: evolves_trans reg_rel_evolves)
      moreover have "plugins t' d = Some b" using ev t1(3) by (rule evolves_plugins)
      ultimately show ?thesis using t' by blast
    qed
    have inv2: "?I s2"
      by (rule seq_for_each_Inr[where I = "?I", OF s2 inv1]) (use step in blast)
    have ev2: "evolves s1 s2"
    proof -
      have "?I s2 \<and> evolves s1 s2"
        by (rule seq_for_each_Inr[OF s2, where I = "\<lambda>t. ?I t \<and> evolves s1 t"])
           (use inv1 step evolves_refl evolves_trans in blast)+
      then show ?thesis by simp
    qed
    have deps: "\<forall>d\<in>set ?ds. \<exists>b. plugins s2 d = Some b \<and> b \<in> set (order_of ph s2)"
    proof
      fix d assume d: "d \<in> set ?ds"
      have "\<exists>t t'. ?I t \<and> evolves s1 t \<and> ?f d t = Some (Inr t') \<and> ?I t' \<and> evolves t' s2"
        by (rule seq_for_each_visited[where I = "?I" and R = evolves, OF s2 d inv1])
           (use step evolves_refl evolves_trans in blast)+
      then obtain t t' where t: "?I t" "?f d t = Some (Inr t')" "evolves t' s2" by blast
      from step[OF d t(1,2)] obtain b where
        b: "plugins t' d = Some b" "b \<in> set (order_of ph t')" by blast
      from t(3) obtain ys where "order_of ph s2 = order_of ph t' @ ys"
        by (cases ph) (auto simp: evolves_def)
      then show "\<exists>b. plugins s2 d = Some b \<and> b \<in> set (order_of ph s2)"
        using b evolves_plugins[OF t(3) b(1)] by auto
    qed
    from evolves_objs[OF ev2 obj1] obtain me where
      me: "plugin_objs s2 this = Some me" "plugin_name me = ?P"
        "state_ord (leads_to ph) \<le> state_ord (plugin_state me)" by auto
    have "order_inv ph prog X s'"
      unfolding s' using inv2 me PX deps by (rule order_inv_close)
    then show ?thesis by (simp add: s')
  qed
qed

text \<open>Initialization leaves \<^verbatim>\<open>running_plugins\<close> alone.\<close>

lemma initialize_keeps_running:
  "registry_ok s \<Longrightarrow> traverse Initializing fuel prog this s = Some (Inr s') \<Longrightarrow>
   running_plugins s' = running_plugins s"
proof (induction fuel arbitrary: s this s')
  case 0
  then show ?case by simp
next
  case (Suc fuel)
  from Suc.prems(2) obtain self where self: "plugin_objs s this = Some self"
    by (auto split: option.splits)
  show ?case
  proof (cases "plugin_state self = fires_from Initializing")
    case False
    from Suc.prems(2) have "assert_state this (leads_to Initializing) s = Some (Inr s')"
      unfolding traverse_Suc_skips[OF self False] .
    then show ?thesis by (simp add: assert_state_Inr)
  next
    case True
    define s1 where "s1 = set_state this self (leads_to Initializing) s"
    let ?f = "plugin_requires_visit (register_plugin fuel prog) (traverse Initializing fuel prog)"
    let ?I = "\<lambda>t. registry_ok t \<and> running_plugins t = running_plugins s"
    from Suc.prems(2) obtain s2 where
      s2: "seq_for_each ?f (requires_seq prog (plugin_name self)) s1 = Some (Inr s2)"
      and s': "s' = notify Initializing this (log_event (hook_of Initializing this) s2)"
      unfolding traverse_Suc_fires[OF self True] s1_def[symmetric]
      by (auto simp: and_then_Inr assert_state_Inr simp del: and_then_simps)
    have "?I s2"
    proof (rule seq_for_each_Inr[where I = "?I", OF s2])
      show "?I s1"
        unfolding s1_def using registry_ok_set_state[OF Suc.prems(1) self]
        by (simp add: set_state_def)
    next
      fix x t t'
      assume t: "?I t" and run: "?f x t = Some (Inr t')"
      from run obtain b t1 where
        b: "register_plugin fuel prog x t = Some (Inr (b, t1))"
           "traverse Initializing fuel prog b t1 = Some (Inr t')"
        by (auto simp: plugin_requires_visit_Inr)
      from register_plugin_ok[OF _ b(1)] t have t1: "registry_ok t1" "reg_rel t t1" by auto
      from Suc.IH[OF t1(1) b(2)] t1(2) t have "running_plugins t' = running_plugins s"
        by (simp add: reg_rel_def)
      then show "?I t'" using traverse_ok[OF t1(1) b(2)] by simp
    qed
    then show ?thesis by (simp add: s' plugin_initialized_def log_event_def)
  qed
qed

subsection \<open>A traversal from a settled application\<close>

lemma card_behind_le: "card (behind k prog s) \<le> length prog"
proof -
  have "card (behind k prog s) \<le> card (fst ` set prog)"
    by (rule card_mono) (auto simp: behind_def)
  also have "\<dots> \<le> card (set prog)" by (rule card_image_le) simp
  also have "\<dots> \<le> length prog" by (rule card_length)
  finally show ?thesis .
qed

lemma order_inv_start:
  assumes "registry_ok s" "order_of ph s = []"
    and "\<forall>a self. plugin_objs s a = Some self \<longrightarrow>
           state_ord (plugin_state self) < state_ord (leads_to ph)"
  shows "order_inv ph prog {} s"
  using assms unfolding order_inv_def topo_def by fastforce

lemma deps_ready_from_order:
  assumes "order_inv Initializing prog {} s"
  shows "deps_ready prog s"
  unfolding deps_ready_def
proof (intro allI impI ballI)
  fix a self d
  assume a: "plugin_objs s a = Some self" "plugin_state self \<noteq> registered"
    and d: "d \<in> set (requires_seq prog (plugin_name self))"
  have "1 \<le> state_ord (plugin_state self)" using a(2) by (cases "plugin_state self") auto
  then have "a \<in> set (initialized_plugins s)"
    using assms a(1) unfolding order_inv_def by auto
  then obtain b where b: "plugins s d = Some b" "precedes b a (initialized_plugins s)"
    using assms a(1) d unfolding order_inv_def topo_def by fastforce
  from precedes_in_set[OF b(2)] assms obtain dep where
    "plugin_objs s b = Some dep" "1 \<le> state_ord (plugin_state dep)"
    unfolding order_inv_def by fastforce
  then show "\<exists>b dep. plugins s d = Some b \<and> plugin_objs s b = Some dep \<and>
      plugin_state dep \<noteq> registered"
    using b(1) by (cases "plugin_state dep") auto
qed

lemma traverse_total:
  fixes rank :: "string \<Rightarrow> nat"
  assumes acyclic: "\<forall>P. \<forall>d\<in>set (requires_seq prog P). rank d < rank P"
    and inv: "order_inv ph prog {} s" and safe: "safe ph prog s"
    and self: "plugin_objs s this = Some self" and call: "callable ph self"
    and fuel: "length prog < fuel"
  shows "\<exists>s'. traverse ph fuel prog this s = Some (Inr s') \<and> order_inv ph prog {} s' \<and>
           safe ph prog s' \<and> evolves s s' \<and> this \<in> set (order_of ph s')"
proof -
  have ok: "registry_ok s" using inv by (simp add: order_inv_def)
  have "card (behind (state_ord (leads_to ph)) prog s) < fuel"
    using card_behind_le[of "state_ord (leads_to ph)" prog s] fuel by simp
  from traverse_terminates[OF ok this] obtain r where r: "traverse ph fuel prog this s = Some r"
    by blast
  from traverse_returns[OF ok safe self call r] obtain s' where
    s': "r = Inr s'" "safe ph prog s'" by blast
  have rank: "rank d < rank P" if "d \<in> set (requires_seq prog P)" for P d
    using acyclic that by blast
  from traverse_order[where rank = rank, OF rank inv self _ r[unfolded s'(1)]] have
    "order_inv ph prog {} s'" "this \<in> set (order_of ph s')" by auto
  moreover from traverse_ok[OF ok r[unfolded s'(1)]] have "evolves s s'" by simp
  ultimately show ?thesis using r s' by simp
qed

section \<open>Shutdown order\<close>

text \<open>
  Claim C2. \<open>shutdown_all\<close> runs the shutdown hooks of the started plugins in exactly the
  reverse of \<open>started_order\<close>: when \<^verbatim>\<open>running_plugins\<close> lists each plugin once and each is
  in state \<^verbatim>\<open>started\<close> (which is how \<^verbatim>\<open>plugin::startup\<close> leaves the list), the call returns
  and the hooks it ran are the list read back to front.
\<close>

theorem shutdown_all_reverse_order:
  assumes "distinct (running_plugins s)"
    and "\<forall>a\<in>set (running_plugins s).
           \<exists>self. plugin_objs s a = Some self \<and> plugin_state self = started"
  shows "\<exists>s'. shutdown_all s = Some (Inr s') \<and>
           shutdown_hooks (trace s') = shutdown_hooks (trace s) @ rev (running_plugins s)"
proof -
  from shutdown_list[of "rev (running_plugins s)" s] assms obtain s' where
    "seq_for_each shutdown (rev (running_plugins s)) s = Some (Inr s')"
    "trace s' = trace s @
       concat (map (\<lambda>a. [State_set a stopped, Hook_shutdown a]) (rev (running_plugins s)))"
    by auto
  then show ?thesis
    by (simp add: shutdown_all_def shutdown_hooks_append shutdown_hooks_concat)
qed

theorem shutdown_all_reverse_order_witness:
  "\<exists>s'. shutdown_all demo_started = Some (Inr s') \<and>
      running_plugins demo_started = [1, 0] \<and>
      shutdown_hooks (trace s') = [0, 1]"
proof -
  have h1: "distinct (running_plugins demo_started)"
    by (simp add: model_defs eval_nat_numeral)
  have h2: "\<forall>a\<in>set (running_plugins demo_started).
           \<exists>self. plugin_objs demo_started a = Some self \<and> plugin_state self = started"
    by (simp add: model_defs eval_nat_numeral)
  have h3: "shutdown_hooks (trace demo_started) = []"
    and h4: "running_plugins demo_started = [1, 0]"
    by (simp_all add: model_defs eval_nat_numeral)
  from shutdown_all_reverse_order[OF h1 h2] show ?thesis
    unfolding h3 h4 by simp
qed

section \<open>Order of the effects of initialize\<close>

text \<open>
  Claim C3 has \<^verbatim>\<open>initialize\<close> move the plugin to \<^verbatim>\<open>initialized\<close> after its dependencies
  and its hook. The code writes \<^verbatim>\<open>_state\<close> first: when \<open>Net\<close> (at address 0), which
  requires \<open>Config\<close> (at address 1), is initialized, the state of \<open>Net\<close> is written
  before \<open>Config\<close> is initialized and before the hook of \<open>Net\<close> runs.
\<close>

theorem initialize_effect_order_counterexample:
  "initialize (Suc 1) demo_prog 0 demo_registered = Some (Inr demo_initialized) \<and>
   trace demo_initialized =
     [State_set 0 initialized, State_set 1 initialized,
      Hook_initialize 1, Notify_initialized 1, Hook_initialize 0, Notify_initialized 0]"
  by (simp add: model_defs eval_nat_numeral)

text \<open>
  Claim C3, amended. Let no plugin of the application be started or stopped. For every
  plugin in state \<^verbatim>\<open>registered\<close>, \<^verbatim>\<open>initialize\<close> returns, and it has (c) set the state to
  \<^verbatim>\<open>initialized\<close>, then (a) registered and initialized every declared dependency, so that
  each is past \<^verbatim>\<open>registered\<close> when the hook runs, then (b) run the plugin's hook, then
  (d) notified the application, which appends the plugin to \<^verbatim>\<open>initialized_plugins\<close>.
  Fuel above the number of declared plugin types is enough for the call to return.
\<close>

theorem initialize_effect_order:
  assumes ok: "registry_ok s"
    and quiet: "none_past 1 s"
    and self: "plugin_objs s this = Some self"
    and reg: "plugin_state self = registered"
    and fuel: "length prog \<le> fuel"
  shows "\<exists>s' s2 mid.
           initialize (Suc fuel) prog this s = Some (Inr s') \<and>
           plugin_requires prog (plugin_name self) (register_plugin fuel prog)
             (initialize fuel prog) (set_state this self initialized s) = Some (Inr s2) \<and>
           trace s2 = trace s @ State_set this initialized # mid \<and>
           (\<forall>d\<in>set (requires_seq prog (plugin_name self)).
              \<exists>b dep. plugins s2 d = Some b \<and> plugin_objs s2 b = Some dep \<and>
                      plugin_state dep \<noteq> registered) \<and>
           trace s' = trace s2 @ [Hook_initialize this, Notify_initialized this] \<and>
           initialized_plugins s' = initialized_plugins s2 @ [this] \<and>
           plugin_objs s' = plugin_objs s2"
proof -
  let ?s1 = "set_state this self initialized s"
  let ?f = "plugin_requires_visit (register_plugin fuel prog) (initialize fuel prog)"
  have "card (behind (state_ord (leads_to Initializing)) prog s) < Suc fuel"
    using card_behind_le[of "state_ord (leads_to Initializing)" prog s] fuel by simp
  from traverse_terminates[OF ok this] obtain r where
    r: "traverse Initializing (Suc fuel) prog this s = Some r" by blast
  have "safe Initializing prog s" "callable Initializing self" using quiet by simp_all
  from traverse_returns[OF ok this(1) self this(2) r] obtain s' where "r = Inr s'" by blast
  with r have run: "initialize (Suc fuel) prog this s = Some (Inr s')"
    by (simp only: initialize_traverse)
  from run self reg obtain s2 where
    s2: "plugin_requires prog (plugin_name self) (register_plugin fuel prog)
           (initialize fuel prog) ?s1 = Some (Inr s2)"
    and s': "s' = plugin_initialized this (log_event (Hook_initialize this) s2)"
    by (auto simp: and_then_Inr assert_state_Inr simp del: and_then_simps)
  have ok1: "registry_ok ?s1" using ok self by (rule registry_ok_set_state)
  from plugin_requires_ok[OF initialize_ok s2 ok1] have ev: "evolves ?s1 s2" by simp
  then obtain mid where "trace s2 = trace ?s1 @ mid" by (auto simp: evolves_def)
  then have tr: "trace s2 = trace s @ State_set this initialized # mid"
    by (simp add: set_state_def)
  have deps: "\<exists>b dep. plugins s2 d = Some b \<and> plugin_objs s2 b = Some dep \<and>
                      plugin_state dep \<noteq> registered"
    if d: "d \<in> set (requires_seq prog (plugin_name self))" for d
  proof -
    have "\<exists>t t'. registry_ok t \<and> evolves ?s1 t \<and> ?f d t = Some (Inr t') \<and>
            registry_ok t' \<and> evolves t' s2"
    proof (rule seq_for_each_visited[where I = registry_ok and R = evolves,
              OF s2[unfolded plugin_requires_def] d ok1])
      show "registry_ok t' \<and> evolves t t'"
        if "y \<in> set (requires_seq prog (plugin_name self))" "registry_ok t"
          "?f y t = Some (Inr t')" for y t t'
        using visit_ok[OF initialize_ok that(2,3)] .
    qed (blast intro: evolves_refl evolves_trans)+
    then obtain t t' where t: "registry_ok t" "?f d t = Some (Inr t')" "evolves t' s2" by blast
    from t(2) obtain b t1 where
      b: "register_plugin fuel prog d t = Some (Inr (b, t1))"
         "initialize fuel prog b t1 = Some (Inr t')"
      by (auto simp: plugin_requires_visit_Inr)
    from register_plugin_ok[OF t(1) b(1)] have t1: "registry_ok t1" "plugins t1 d = Some b"
      by auto
    from initialize_ok[OF t1(1) b(2)] have "evolves t1 t'" by simp
    then have p: "plugins s2 d = Some b"
      using t1(2) t(3) by (blast dest: evolves_plugins)
    from initialize_Inr_state[OF b(2)] obtain x where
      x: "plugin_objs t' b = Some x" "plugin_state x = initialized" by blast
    from evolves_objs[OF t(3) x(1)] x(2) obtain dep where
      "plugin_objs s2 b = Some dep" "1 \<le> state_ord (plugin_state dep)" by auto
    then show ?thesis using p by (cases "plugin_state dep") auto
  qed
  show ?thesis
    using run s2 tr deps by (auto simp: s' plugin_initialized_def log_event_def)
qed

theorem initialize_effect_order_witness:
  "initialize (Suc 2) demo_prog 0 demo_registered = Some (Inr demo_initialized) \<and>
   (\<exists>mid. trace demo_initialized =
      trace demo_registered @ State_set 0 initialized # mid @
        [Hook_initialize 0, Notify_initialized 0])"
proof -
  have h1: "registry_ok demo_registered"
    by (auto simp: registry_ok_def model_defs eval_nat_numeral split: if_splits)
  have h2: "none_past 1 demo_registered"
    by (auto simp: none_past_def model_defs eval_nat_numeral split: if_splits)
  have h3: "plugin_objs demo_registered 0 = Some \<lparr>plugin_state = registered, plugin_name = ''Net''\<rparr>"
    by (simp add: model_defs eval_nat_numeral)
  have h5: "length demo_prog \<le> 2" by (simp add: demo_prog_def)
  have run: "initialize (Suc 2) demo_prog 0 demo_registered = Some (Inr demo_initialized)"
    by (simp add: model_defs eval_nat_numeral)
  from initialize_effect_order[OF h1 h2 h3 _ h5] show ?thesis
    using run by auto
qed

section \<open>Calls past the entry state\<close>




section \<open>Startup before initialize\<close>

text \<open>
  Claim C6. \<^verbatim>\<open>startup\<close> on a plugin in state \<^verbatim>\<open>registered\<close> does not return: the plugin is
  left as it is and the assertion \<^verbatim>\<open>assert(_state == started)\<close> fails.
\<close>

theorem startup_registered_aborts:
  "plugin_objs s this = Some self \<Longrightarrow> plugin_state self = registered \<Longrightarrow>
   startup (Suc fuel) prog this s = Some (Inl Assertion_failed)"
  by (simp add: assert_state_def)

theorem startup_registered_aborts_witness:
  "plugin_objs demo_registered 0 = Some \<lparr>plugin_state = registered, plugin_name = ''Net''\<rparr> \<and>
   startup (Suc 0) demo_prog 0 demo_registered = Some (Inl Assertion_failed)"
proof -
  have h: "plugin_objs demo_registered 0 = Some \<lparr>plugin_state = registered, plugin_name = ''Net''\<rparr>"
    by (simp add: model_defs eval_nat_numeral)
  from startup_registered_aborts[OF h, of 0 demo_prog] h show ?thesis by simp
qed

section \<open>Registration is idempotent\<close>



section \<open>Methods and channels\<close>

text \<open>
  Claim C8. Take the object that \<^verbatim>\<open>get_method\<close> returns for a declaration. Every later call
  with that declaration, whatever calls of \<^verbatim>\<open>get_method\<close> and \<^verbatim>\<open>get_channel\<close> lie between,
  returns that object and leaves the application as it is, so nothing is constructed;
  a call with another declaration returns another object, whatever the payload types.
  A call for a declaration that is not yet in the registry constructs the object: it is
  at the next unused address, where no method object was, it has the declaration's
  payload type, and it is stored under the declaration, with all else in the registry
  kept. The same holds for \<^verbatim>\<open>get_channel\<close>.
\<close>

theorem declaration_keyed_singletons:
  assumes ok: "registries_ok s" and ne: "decl_type d1 \<noteq> decl_type d2"
  shows "get_method d1 (run_accesses cs (snd (get_method d1 s))) =
           (fst (get_method d1 s), run_accesses cs (snd (get_method d1 s))) \<and>
         fst (get_method d2 (run_accesses cs (snd (get_method d1 s)))) \<noteq> fst (get_method d1 s) \<and>
         (methods s (decl_type d1) = None \<longrightarrow>
            fst (get_method d1 s) = next_addr s \<and>
            method_objs s (fst (get_method d1 s)) = None \<and>
            method_objs (snd (get_method d1 s)) =
              (method_objs s)(fst (get_method d1 s) \<mapsto> payload_type d1) \<and>
            methods (snd (get_method d1 s)) =
              (methods s)(decl_type d1 \<mapsto> fst (get_method d1 s)) \<and>
            next_addr (snd (get_method d1 s)) = Suc (next_addr s)) \<and>
         get_channel d1 (run_accesses cs (snd (get_channel d1 s))) =
           (fst (get_channel d1 s), run_accesses cs (snd (get_channel d1 s))) \<and>
         fst (get_channel d2 (run_accesses cs (snd (get_channel d1 s)))) \<noteq> fst (get_channel d1 s) \<and>
         (channels s (decl_type d1) = None \<longrightarrow>
            fst (get_channel d1 s) = next_addr s \<and>
            channel_objs s (fst (get_channel d1 s)) = None \<and>
            channel_objs (snd (get_channel d1 s)) =
              (channel_objs s)(fst (get_channel d1 s) \<mapsto> payload_type d1) \<and>
            channels (snd (get_channel d1 s)) =
              (channels s)(decl_type d1 \<mapsto> fst (get_channel d1 s)) \<and>
            next_addr (snd (get_channel d1 s)) = Suc (next_addr s))"
proof -
  let ?tm = "run_accesses cs (snd (get_method d1 s))"
  let ?tc = "run_accesses cs (snd (get_channel d1 s))"
  have okm: "registries_ok ?tm" and okc: "registries_ok ?tc"
    using ok by (simp_all add: registries_ok_get run_accesses_ok)
  have m: "methods ?tm (decl_type d1) = Some (fst (get_method d1 s))"
    by (intro run_accesses_kept get_method_stored)
  have c: "channels ?tc (decl_type d1) = Some (fst (get_channel d1 s))"
    by (intro run_accesses_kept get_channel_stored)
  have ne': "decl_type d2 \<noteq> decl_type d1" using ne by simp
  show ?thesis
    using get_method_present[OF m] get_channel_present[OF c]
      get_method_other[OF okm m ne'] get_channel_other[OF okc c ne']
      get_method_first[OF ok, of d1] get_channel_first[OF ok, of d1]
    by blast
qed

theorem declaration_keyed_singletons_witness:
  "payload_type decl_one = payload_type decl_two \<and>
   get_method decl_one empty_application =
     (0, empty_application\<lparr>methods := [''get_block'' \<mapsto> 0],
           method_objs := [0 \<mapsto> ''int(int)''], next_addr := 1\<rparr>) \<and>
   fst (get_method decl_two (snd (get_method decl_one empty_application))) = 1 \<and>
   fst (get_method decl_one
     (run_accesses [Get_method decl_two, Get_channel decl_one]
        (snd (get_method decl_one empty_application)))) = 0 \<and>
   fst (get_method decl_two
     (run_accesses [Get_method decl_two, Get_channel decl_one]
        (snd (get_method decl_one empty_application)))) \<noteq> 0"
proof -
  have h: "decl_type decl_one \<noteq> decl_type decl_two" by (simp add: decl_one_def decl_two_def)
  have n: "methods empty_application (decl_type decl_one) = None"
    by (simp add: empty_application_def)
  have e: "get_method decl_one empty_application =
     (0, empty_application\<lparr>methods := [''get_block'' \<mapsto> 0],
           method_objs := [0 \<mapsto> ''int(int)''], next_addr := 1\<rparr>)"
    by (simp add: get_method_def decl_one_def empty_application_def)
  from declaration_keyed_singletons[OF registries_ok_empty h,
      of "[Get_method decl_two, Get_channel decl_one]"] n e
  show ?thesis
    by (simp add: decl_one_def decl_two_def get_method_def get_channel_def
        empty_application_def)
qed

section \<open>Initialize is idempotent\<close>

text \<open>
  Claim C9. After a call of \<^verbatim>\<open>initialize\<close> that returned, a second call on the same plugin
  returns the application unchanged (no hook, no entry added to \<^verbatim>\<open>initialized_plugins\<close>),
  and the plugin is in state \<^verbatim>\<open>initialized\<close>.
\<close>

theorem initialize_twice:
  assumes "initialize fuel prog this s = Some (Inr s1)"
  shows "initialize (Suc fuel') prog this s1 = Some (Inr s1) \<and>
         (\<exists>self. plugin_objs s1 this = Some self \<and> plugin_state self = initialized)"
proof -
  from initialize_Inr_state[OF assms] obtain self1 where
    "plugin_objs s1 this = Some self1" "plugin_state self1 = initialized" by blast
  then show ?thesis by (simp add: assert_state_def)
qed

theorem initialize_twice_witness:
  "initialize (Suc 1) demo_prog 0 demo_registered = Some (Inr demo_initialized) \<and>
   initialize (Suc 0) demo_prog 0 demo_initialized = Some (Inr demo_initialized)"
proof -
  have h: "initialize (Suc 1) demo_prog 0 demo_registered = Some (Inr demo_initialized)"
    unfolding demo_initialized_def
    by (rule returned_result_state) (simp add: model_defs eval_nat_numeral)
  from initialize_twice[OF h, of 0] h show ?thesis by simp
qed

section \<open>Shutdown of a plugin that is not running\<close>

text \<open>
  Claim C10. \<^verbatim>\<open>shutdown\<close> on a plugin whose state is not \<^verbatim>\<open>started\<close> returns the application
  unchanged: no state change, no hook, no assertion.
\<close>

theorem shutdown_not_started_noop:
  "plugin_objs s this = Some self \<Longrightarrow> plugin_state self \<noteq> started \<Longrightarrow>
   shutdown this s = Some (Inr s)"
  by (simp add: shutdown_def)

theorem shutdown_not_started_noop_witness:
  "plugin_objs demo_registered 0 = Some \<lparr>plugin_state = registered, plugin_name = ''Net''\<rparr> \<and>
   shutdown 0 demo_registered = Some (Inr demo_registered)"
proof -
  have h: "plugin_objs demo_registered 0 = Some \<lparr>plugin_state = registered, plugin_name = ''Net''\<rparr>"
    by (simp add: model_defs eval_nat_numeral)
  from shutdown_not_started_noop[OF h] h show ?thesis by simp
qed

section \<open>Dependencies come first\<close>

text \<open>
  Claim C1 has every dependency \<open>B\<close> of \<open>A\<close> come strictly before \<open>A\<close> in both order
  lists. With two plugins that require each other it fails for \<open>started_order\<close>:
  \<open>initialize_all({A})\<close> gives the initialized order \<open>B, A\<close>, so \<open>startup_all\<close> starts with
  \<open>B\<close>, whose traversal starts \<open>A\<close> first, and \<open>A\<close> is recorded before its dependency \<open>B\<close>.
\<close>

theorem dependencies_come_first_counterexample:
  "''B'' \<in> set (requires_seq cyclic_prog ''A'') \<and>
   returned (lifecycle_run 3 cyclic_prog ''A'') \<and>
   plugins cyclic_started ''A'' = Some 0 \<and>
   plugins cyclic_started ''B'' = Some 1 \<and>
   initialized_plugins cyclic_started = [1, 0] \<and>
   running_plugins cyclic_started = [0, 1] \<and>
   \<not> precedes 1 0 (running_plugins cyclic_started)"
  by (simp add: model_defs precedes_def eval_nat_numeral)

text \<open>
  Claim C1, amended: when the dependency declarations have no cycle. The absence of
  cycles is given by a ranking of the plugin types in which every type ranks above the
  types it requires. Let no plugin of the application have left \<^verbatim>\<open>registered\<close>, let \<open>A\<close> be
  registered and require \<open>B\<close>. Then \<open>initialize_all({A})\<close> returns, \<open>B\<close> is in state
  \<^verbatim>\<open>initialized\<close> and strictly before \<open>A\<close> in \<^verbatim>\<open>initialized_plugins\<close>; and \<open>startup_all\<close>
  returns with \<open>B\<close> strictly before \<open>A\<close> in \<^verbatim>\<open>running_plugins\<close>.
\<close>

theorem dependencies_come_first:
  fixes rank :: "string \<Rightarrow> nat"
  assumes acyclic: "\<forall>P. \<forall>d\<in>set (requires_seq prog P). rank d < rank P"
    and dep: "B \<in> set (requires_seq prog A)"
    and ok: "registry_ok s"
    and fresh: "\<forall>a self. plugin_objs s a = Some self \<longrightarrow> plugin_state self = registered"
    and empty: "initialized_plugins s = []" "running_plugins s = []"
    and A: "plugins s A = Some a"
    and fuel: "length prog < fuel"
  shows "\<exists>s2 s3 b. initialize_all fuel prog [a] s = Some (Inr s2) \<and>
           startup_all fuel prog s2 = Some (Inr s3) \<and>
           plugins s2 B = Some b \<and>
           map_option plugin_state (plugin_objs s2 b) = Some initialized \<and>
           precedes b a (initialized_plugins s2) \<and>
           precedes b a (running_plugins s3)"
proof -
  from registry_ok_plugins[OF ok A] obtain selfA where
    selfA: "plugin_objs s a = Some selfA" "plugin_name selfA = A" by blast
  have inv0: "order_inv Initializing prog {} s"
    using ok empty(1) fresh by (intro order_inv_start) auto
  have safe0: "safe Initializing prog s" using fresh empty(2) by (auto simp: none_past_def)
  from traverse_total[OF acyclic inv0 safe0 selfA(1) _ fuel] obtain s2 where
    s2: "traverse Initializing fuel prog a s = Some (Inr s2)"
      "order_inv Initializing prog {} s2" "safe Initializing prog s2" "evolves s s2"
      "a \<in> set (initialized_plugins s2)" by auto
  have init: "initialize_all fuel prog [a] s = Some (Inr s2)"
    using s2(1) by (simp add: initialize_all_def initialize_traverse)
  have ok2: "registry_ok s2" using s2(2) by (simp add: order_inv_def)
  from evolves_objs[OF s2(4) selfA(1)] selfA(2) obtain selfA2 where
    selfA2: "plugin_objs s2 a = Some selfA2" "plugin_name selfA2 = A" by auto
  from s2(2,5) selfA2 dep obtain b where
    b: "plugins s2 B = Some b" "precedes b a (initialized_plugins s2)"
    unfolding order_inv_def topo_def by fastforce
  from precedes_in_set[OF b(2)] s2(2) obtain selfB where
    selfB: "plugin_objs s2 b = Some selfB" "1 \<le> state_ord (plugin_state selfB)"
    unfolding order_inv_def by fastforce
  have "state_ord (plugin_state selfB) \<le> 1" using s2(3) selfB(1) by (simp add: none_past_def)
  with selfB(2) have stB: "plugin_state selfB = initialized"
    by (cases "plugin_state selfB") auto
  let ?L = "initialized_plugins s2"
  let ?I = "\<lambda>t. order_inv Starting prog {} t \<and> safe Starting prog t \<and> evolves s2 t"
  have inv2: "order_inv Starting prog {} s2"
  proof (rule order_inv_start[OF ok2])
    show "order_of Starting s2 = []"
      using initialize_keeps_running[OF ok s2(1)] empty(2) by simp
    show "\<forall>a self. plugin_objs s2 a = Some self \<longrightarrow>
           state_ord (plugin_state self) < state_ord (leads_to Starting)"
      using s2(3) by (fastforce simp: none_past_def)
  qed
  have safe2: "safe Starting prog s2"
    using s2(3) deps_ready_from_order[OF s2(2)] by (fastforce simp: none_past_def)
  have step: "\<exists>t'. traverse Starting fuel prog x t = Some (Inr t') \<and> ?I t' \<and>
      x \<in> set (running_plugins t')" if x: "x \<in> set ?L" and t: "?I t" for x t
  proof -
    from s2(2) x obtain selfx where
      selfx: "plugin_objs s2 x = Some selfx" "1 \<le> state_ord (plugin_state selfx)"
      unfolding order_inv_def by fastforce
    from evolves_objs[of s2 t, OF _ selfx(1)] t selfx(2) obtain selfx' where
      selfx': "plugin_objs t x = Some selfx'" "1 \<le> state_ord (plugin_state selfx')" by fastforce
    have "callable Starting selfx'" using selfx'(2) by (cases "plugin_state selfx'") auto
    from traverse_total[where s = t, OF acyclic _ _ selfx'(1) this fuel] t obtain t' where
      "traverse Starting fuel prog x t = Some (Inr t')" "order_inv Starting prog {} t'"
      "safe Starting prog t'" "evolves t t'" "x \<in> set (order_of Starting t')" by blast
    then show ?thesis using t by (auto intro: evolves_trans)
  qed
  have "\<exists>s3. seq_for_each (traverse Starting fuel prog) ?L s2 = Some (Inr s3) \<and> ?I s3"
    by (rule seq_for_each_total) (use inv2 safe2 evolves_refl step in blast)+
  then obtain s3 where
    s3: "seq_for_each (traverse Starting fuel prog) ?L s2 = Some (Inr s3)"
      "order_inv Starting prog {} s3" "evolves s2 s3" by blast
  have start: "startup_all fuel prog s2 = Some (Inr s3)"
    using s3(1) by (simp add: startup_all_def startup_traverse)
  have "\<exists>t t'. ?I t \<and> evolves s2 t \<and> traverse Starting fuel prog a t = Some (Inr t') \<and>
          ?I t' \<and> evolves t' s3"
  proof (rule seq_for_each_visited[where I = "?I" and R = evolves, OF s3(1) s2(5)])
    show "?I s2" using inv2 safe2 by (simp add: evolves_refl)
    show "?I t' \<and> evolves t t'"
      if "y \<in> set ?L" "?I t" "traverse Starting fuel prog y t = Some (Inr t')" for y t t'
      using step[OF that(1,2)] that(2,3) traverse_ok[OF _ that(3)]
      by (auto simp: order_inv_def)
  qed (blast intro: evolves_refl evolves_trans)+
  then obtain t t' where
    t: "?I t" "traverse Starting fuel prog a t = Some (Inr t')" "evolves t' s3" by blast
  from step[OF s2(5) t(1)] t(2) have "a \<in> set (running_plugins t')" by simp
  moreover from t(3) obtain ys where "running_plugins s3 = running_plugins t' @ ys"
    by (auto simp: evolves_def)
  ultimately have a3: "a \<in> set (running_plugins s3)" by simp
  from evolves_objs[OF s3(3) selfA2(1)] selfA2(2) obtain selfA3 where
    selfA3: "plugin_objs s3 a = Some selfA3" "plugin_name selfA3 = A" by auto
  from s3(2) a3 selfA3 dep obtain b' where
    b': "plugins s3 B = Some b'" "precedes b' a (running_plugins s3)"
    unfolding order_inv_def topo_def by fastforce
  have "b' = b" using evolves_plugins[OF s3(3) b(1)] b'(1) by simp
  then show ?thesis using init start b selfB(1) stB b'(2) by auto
qed

theorem dependencies_come_first_witness:
  "\<exists>s2 s3 b. initialize_all 3 demo_prog [0] demo_registered = Some (Inr s2) \<and>
     startup_all 3 demo_prog s2 = Some (Inr s3) \<and>
     plugins s2 ''Config'' = Some b \<and>
     map_option plugin_state (plugin_objs s2 b) = Some initialized \<and>
     precedes b 0 (initialized_plugins s2) \<and>
     precedes b 0 (running_plugins s3)"
proof -
  have h1: "\<forall>P. \<forall>d\<in>set (requires_seq demo_prog P). demo_rank d < demo_rank P"
    by (simp add: requires_seq_def demo_prog_def demo_rank_def)
  have h2: "''Config'' \<in> set (requires_seq demo_prog ''Net'')"
    by (simp add: requires_seq_def demo_prog_def)
  have h3: "registry_ok demo_registered"
    by (auto simp: registry_ok_def model_defs eval_nat_numeral split: if_splits)
  have h4: "\<forall>a self. plugin_objs demo_registered a = Some self \<longrightarrow>
              plugin_state self = registered"
    by (auto simp: model_defs eval_nat_numeral split: if_splits)
  have h5: "initialized_plugins demo_registered = []" "running_plugins demo_registered = []"
    by (simp_all add: model_defs eval_nat_numeral)
  have h6: "plugins demo_registered ''Net'' = Some 0"
    by (simp add: model_defs eval_nat_numeral)
  have h7: "length demo_prog < 3" by (simp add: demo_prog_def)
  show ?thesis by (rule dependencies_come_first[OF h1 h2 h3 h4 h5 h6 h7])
qed

section \<open>Cyclic declarations\<close>

text \<open>
  Claim C4 has a cyclic declaration make the traversal recurse without bound. The two
  plugins that require each other are registered, initialized and started by calls that
  nest at most three deep and return: \<^verbatim>\<open>register_plugin\<close> puts a plugin into the registry
  before it registers the dependencies, and \<^verbatim>\<open>initialize\<close> and \<^verbatim>\<open>startup\<close> set the state
  before they visit them, so the second visit of a plugin finds it and does nothing.
\<close>

theorem traversal_terminates_counterexample:
  "returned (register_plugin 3 cyclic_prog ''A'' empty_application) \<and>
   returned (initialize 3 cyclic_prog 0 cyclic_registered) \<and>
   returned (startup 3 cyclic_prog 0 cyclic_initialized) \<and>
   trace cyclic_initialized =
     [State_set 0 initialized, State_set 1 initialized,
      Hook_initialize 1, Notify_initialized 1, Hook_initialize 0, Notify_initialized 0]"
  by (simp add: model_defs eval_nat_numeral)

text \<open>
  Claim C4, amended. A cyclic dependency declaration is not detected and not reported,
  and the traversal terminates all the same: for every declaration of dependencies,
  cyclic or not, and every application whose registry is well formed, \<^verbatim>\<open>register_plugin\<close>
  returns the plugin, and \<^verbatim>\<open>initialize\<close> and \<^verbatim>\<open>startup\<close> return or stop at an assertion,
  within a nesting depth of one more than the number of declared plugin types.
\<close>

theorem traversal_terminates:
  assumes "registry_ok s" and "length prog < fuel"
  shows "(\<exists>plug s'. register_plugin fuel prog Plugin s = Some (Inr (plug, s'))) \<and>
         (\<exists>r. initialize fuel prog this s = Some r) \<and>
         (\<exists>r. startup fuel prog this s = Some r)"
proof -
  have small: "card (behind k prog s) < fuel" for k
    using card_behind_le[of k prog s] assms(2) by simp
  show ?thesis
    using register_plugin_terminates[OF assms(1) small]
      traverse_terminates[OF assms(1) small, of Initializing]
      traverse_terminates[OF assms(1) small, of Starting]
    by (simp add: initialize_traverse startup_traverse)
qed

theorem traversal_terminates_witness:
  "(\<exists>plug s'. register_plugin 3 cyclic_prog ''A'' empty_application = Some (Inr (plug, s'))) \<and>
   (\<exists>r. initialize 3 cyclic_prog 0 empty_application = Some r) \<and>
   (\<exists>r. startup 3 cyclic_prog 0 empty_application = Some r) \<and>
   (\<exists>r. initialize 3 cyclic_prog 0 cyclic_registered = Some r) \<and>
   (\<exists>r. startup 3 cyclic_prog 0 cyclic_initialized = Some r)"
proof -
  have h: "length cyclic_prog < 3" by (simp add: cyclic_prog_def)
  have ok1: "registry_ok cyclic_registered"
    by (auto simp: registry_ok_def model_defs eval_nat_numeral split: if_splits)
  have ok2: "registry_ok cyclic_initialized"
    by (auto simp: registry_ok_def model_defs eval_nat_numeral split: if_splits)
  show ?thesis
    using traversal_terminates[OF registry_ok_empty h, of "''A''" 0]
      traversal_terminates[OF ok1 h, of "''A''" 0] traversal_terminates[OF ok2 h, of "''A''" 0]
    by blast
qed

end
